theory Spec2Isabelle
  imports Main "HOL-Library.Word" "HOL-Library.Log_Nat"
begin

unbundle bit_operations_syntax

section \<open>Machine integers and their object representation\<close>

type_synonym u8 = "8 word"
type_synonym u16 = "16 word"
type_synonym u32 = "32 word"
type_synonym u64 = "64 word"

text \<open>
  The program copies multi-byte objects into the packet with \<^verbatim>\<open>memcpy\<close>, so what lands
  in the packet is the object representation of the host.  The byte order of the host is a
  parameter of the model.
\<close>

datatype endianness = LittleEndian | BigEndian

definition le_bytes :: "nat \<Rightarrow> 'a::len word \<Rightarrow> u8 list" where
  "le_bytes n w = map (\<lambda>k. ucast (drop_bit (8 * k) w)) [0..<n]"

definition be_bytes :: "nat \<Rightarrow> 'a::len word \<Rightarrow> u8 list" where
  "be_bytes n w = rev (le_bytes n w)"

text \<open>The \<open>n\<close> bytes of an object of size \<open>n\<close> holding \<open>w\<close>, lowest address first.\<close>

definition object_bytes :: "endianness \<Rightarrow> nat \<Rightarrow> 'a::len word \<Rightarrow> u8 list" where
  "object_bytes e n w = (case e of LittleEndian \<Rightarrow> le_bytes n w | BigEndian \<Rightarrow> be_bytes n w)"

text \<open>\<^verbatim>\<open>memcpy(&buff[off], src, n)\<close>: the buffer with \<open>n\<close> bytes of \<open>src\<close> written at \<open>off\<close>.\<close>

definition memcpy :: "u8 list \<Rightarrow> nat \<Rightarrow> u8 list \<Rightarrow> nat \<Rightarrow> u8 list" where
  "memcpy buff off src n = take off buff @ take n src @ drop (off + n) buff"

definition slice :: "'a list \<Rightarrow> nat \<Rightarrow> nat \<Rightarrow> 'a list" where
  "slice xs off n = take n (drop off xs)"

section \<open>Byte-order normalisation (klvgen.c, sysIsBigEndian and htonll)\<close>

text \<open>
  \<^verbatim>\<open>union { uint32_t i; char ch[4]; } tmp = {0x01020304}; return tmp.ch[0] == 1;\<close>
\<close>

definition sysIsBigEndian :: "endianness \<Rightarrow> bool" where
  "sysIsBigEndian e = (hd (object_bytes e 4 (0x01020304 :: u32)) = 1)"

definition htonll :: "endianness \<Rightarrow> u64 \<Rightarrow> u64" where
  "htonll e num =
     (if sysIsBigEndian e then num
      else (push_bit 56 (num AND 0xFF) OR drop_bit 56 (num AND 0xFF00000000000000) OR
            push_bit 40 (num AND 0xFF00) OR drop_bit 40 (num AND 0x00FF000000000000) OR
            push_bit 24 (num AND 0xFF0000) OR drop_bit 24 (num AND 0x0000FF0000000000) OR
            push_bit 8 (num AND 0xFF000000) OR drop_bit 8 (num AND 0x000000FF00000000)))"

text \<open>
  \<^verbatim>\<open>htonl\<close> and \<^verbatim>\<open>htons\<close> come from the C library: host order to network order, the
  identity on a big-endian host and a byte swap on a little-endian one.
\<close>

definition htonl :: "endianness \<Rightarrow> u32 \<Rightarrow> u32" where
  "htonl e x =
     (case e of BigEndian \<Rightarrow> x
      | LittleEndian \<Rightarrow>
          push_bit 24 (x AND 0xFF) OR push_bit 8 (x AND 0xFF00) OR
          drop_bit 8 (x AND 0xFF0000) OR drop_bit 24 (x AND 0xFF000000))"

definition htons :: "endianness \<Rightarrow> u16 \<Rightarrow> u16" where
  "htons e x =
     (case e of BigEndian \<Rightarrow> x
      | LittleEndian \<Rightarrow> push_bit 8 (x AND 0xFF) OR drop_bit 8 (x AND 0xFF00))"

section \<open>Checksum (klvgen.c, makeChecksum)\<close>

text \<open>
  \<^verbatim>\<open>uint16_t bcc = 0, i;
  for (i = 0; i < len; i++) bcc += buff[i] << (8 * ((i + 1) % 2));
  return bcc;\<close>

  The counter and the sum are 16-bit; \<open>i + 1\<close> is computed in \<^verbatim>\<open>int\<close> and cannot wrap,
  and the shifted byte fits in 16 bits, so the compound assignment is an addition of
  16-bit words.  Reading \<open>buff[i]\<close> beyond the buffer is undefined in C; the theorems
  below assume \<open>unat len \<le> length buff\<close>.
\<close>

lemma unat_succ_less: "i < len \<Longrightarrow> unat (i + 1) = Suc (unat i)" for i len :: "'a::len word"
proof -
  assume "i < len"
  then have "unat i < unat len" by (simp add: word_less_nat_alt)
  moreover have "unat len < 2 ^ LENGTH('a)" by (rule unsigned_less)
  ultimately have "unat i + 1 < 2 ^ LENGTH('a)" by linarith
  then show ?thesis by (simp add: unat_word_ariths)
qed

function makeChecksum_loop :: "u8 list \<Rightarrow> u16 \<Rightarrow> u16 \<Rightarrow> u16 \<Rightarrow> u16" where
  "makeChecksum_loop buff len bcc i =
     (if i < len
      then makeChecksum_loop buff len
             (bcc + push_bit (8 * ((unat i + 1) mod 2)) (ucast (buff ! unat i))) (i + 1)
      else bcc)"
  by pat_completeness auto
termination
  by (relation "measure (\<lambda>(buff, len, bcc, i). unat len - unat i)")
     (simp_all add: unat_succ_less word_less_nat_alt diff_less_mono2)

definition makeChecksum :: "u8 list \<Rightarrow> u16 \<Rightarrow> u16" where
  "makeChecksum buff len = makeChecksum_loop buff len 0 0"

section \<open>Packet assembly (klvgen.c, makePacket)\<close>

text \<open>The file-scope variables that \<^verbatim>\<open>makePacket\<close> reads and writes.\<close>

record globals =
  missionId :: "u8 list"
  platform :: "u8 list"
  altitude :: u16
  checksum :: u32
  latitude :: u32
  longitude :: u32
  timestamp :: u64

definition ldsVersion :: u8 where "ldsVersion = 0x02"

definition uasLdsKey :: "u8 list" where
  "uasLdsKey = [0x06, 0x0E, 0x2B, 0x34, 0x02, 0x0B, 0x01, 0x01,
                0x0E, 0x01, 0x03, 0x01, 0x01, 0x00, 0x00, 0x00]"

definition PACKET_LENGTH :: nat where "PACKET_LENGTH = 78"
definition msgLength :: u8 where "msgLength = 0x3D"
definition timestampTagLen :: "u8 list" where "timestampTagLen = [0x02, 0x08]"
definition missionTagLen :: "u8 list" where "missionTagLen = [0x03, 0x0C]"
definition platformTagLen :: "u8 list" where "platformTagLen = [0x0A, 0x0C]"
definition latitudeTagLen :: "u8 list" where "latitudeTagLen = [0x0D, 0x04]"
definition longitudeTagLen :: "u8 list" where "longitudeTagLen = [0x0E, 0x04]"
definition altitudeTagLen :: "u8 list" where "altitudeTagLen = [0x0F, 0x02]"
definition versionTagLen :: "u8 list" where "versionTagLen = [0x41, 0x01]"
definition checksumTagLen :: "u8 list" where "checksumTagLen = [0x01, 0x02]"

text \<open>
  The copies in the order of the source.  The variable \<^verbatim>\<open>checksum\<close> is a
  \<^verbatim>\<open>uint32_t\<close>, and \<^verbatim>\<open>memcpy(&buff[76], &checksum, 2)\<close> takes the first two bytes of
  its four-byte object.
\<close>

definition makePacket :: "endianness \<Rightarrow> globals \<Rightarrow> u8 list \<Rightarrow> globals \<times> u8 list" where
  "makePacket e g buff =
    (let b = memcpy buff 0 uasLdsKey 16;
         b = memcpy b 16 [msgLength] 1;
         b = memcpy b 17 timestampTagLen 2;
         b = memcpy b 19 (object_bytes e 8 (timestamp g)) 8;
         b = memcpy b 27 missionTagLen 2;
         b = memcpy b 29 (missionId g) 12;
         b = memcpy b 41 platformTagLen 2;
         b = memcpy b 43 (platform g) 12;
         b = memcpy b 55 latitudeTagLen 2;
         b = memcpy b 57 (object_bytes e 4 (latitude g)) 4;
         b = memcpy b 61 longitudeTagLen 2;
         b = memcpy b 63 (object_bytes e 4 (longitude g)) 4;
         b = memcpy b 67 altitudeTagLen 2;
         b = memcpy b 69 (object_bytes e 2 (altitude g)) 2;
         b = memcpy b 71 versionTagLen 2;
         b = memcpy b 73 [ldsVersion] 1;
         b = memcpy b 74 checksumTagLen 2;
         g = g\<lparr>checksum := ucast (makeChecksum b 76)\<rparr>;
         b = memcpy b 76 (object_bytes e 4 (checksum g)) 2
     in (g, b))"

text \<open>What \<^verbatim>\<open>udpSendPacket\<close> hands to \<^verbatim>\<open>sendto\<close>: the first \<open>PACKET_LENGTH\<close> bytes.\<close>

definition packet_of :: "u8 list \<Rightarrow> u8 list" where
  "packet_of buff = take PACKET_LENGTH buff"

section \<open>Floating-point arithmetic (C float and double)\<close>

text \<open>
  The unit mapper computes in \<^verbatim>\<open>float\<close> and the command line is read into \<^verbatim>\<open>double\<close>.
  The model is IEEE 754 binary32 and binary64 with rounding to nearest, ties to even:
  every operation on \<^verbatim>\<open>float\<close> operands is rounded to single precision, as on targets that
  evaluate \<^verbatim>\<open>float\<close> expressions in their own format (x86-64, ARM).  A finite value is the
  rational number it denotes; infinities and NaN are values of their own.  The sign of a
  zero is not kept: it can only change the sign of an infinity that a division by zero
  returns, and no infinity converts to an integer.
\<close>

datatype fval = Fin rat | PInf | NInf | NaN

datatype format = Binary32 | Binary64

fun prec :: "format \<Rightarrow> int" where
  "prec Binary32 = 24"
| "prec Binary64 = 53"

fun emax :: "format \<Rightarrow> int" where
  "emax Binary32 = 127"
| "emax Binary64 = 1023"

definition emin :: "format \<Rightarrow> int" where
  "emin f = 1 - emax f"

text \<open>\<open>ilog2 x\<close> is the exponent of a positive \<open>x\<close>: \<open>2 ^ e \<le> x < 2 ^ (e + 1)\<close>.\<close>

definition ilog2 :: "rat \<Rightarrow> int" where
  "ilog2 x = (if 1 \<le> x then bitlen \<lfloor>x\<rfloor> - 1 else - bitlen (\<lceil>1 / x\<rceil> - 1))"

definition round_half_even :: "rat \<Rightarrow> int" where
  "round_half_even r =
     (let f = \<lfloor>r\<rfloor>; d = r - of_int f
      in if d < 1 / 2 then f else if 1 / 2 < d then f + 1 else if even f then f else f + 1)"

text \<open>
  Rounding to the nearest multiple of the unit in the last place: \<open>prec f\<close> significant
  bits, and below the smallest normal exponent the fixed unit of the subnormal numbers.
  A result beyond the largest finite number is an infinity.
\<close>

definition rnd :: "format \<Rightarrow> rat \<Rightarrow> rat" where
  "rnd f x =
     (if x = 0 then 0
      else let e = max (ilog2 \<bar>x\<bar>) (emin f);
               q = 2 powi (e - prec f + 1)
           in of_int (round_half_even (x / q)) * q)"

definition round_to :: "format \<Rightarrow> rat \<Rightarrow> fval" where
  "round_to f x =
     (let y = rnd f x
      in if 2 powi (emax f + 1) \<le> \<bar>y\<bar> then (if 0 < x then PInf else NInf) else Fin y)"

text \<open>Single-precision negation, addition, subtraction, multiplication, division, \<open><\<close>.\<close>

fun fneg :: "fval \<Rightarrow> fval" where
  "fneg (Fin x) = Fin (- x)"
| "fneg PInf = NInf"
| "fneg NInf = PInf"
| "fneg NaN = NaN"

fun fadd :: "fval \<Rightarrow> fval \<Rightarrow> fval" where
  "fadd (Fin x) (Fin y) = round_to Binary32 (x + y)"
| "fadd NaN _ = NaN"
| "fadd _ NaN = NaN"
| "fadd PInf NInf = NaN"
| "fadd NInf PInf = NaN"
| "fadd PInf _ = PInf"
| "fadd _ PInf = PInf"
| "fadd NInf _ = NInf"
| "fadd _ NInf = NInf"

definition fsub :: "fval \<Rightarrow> fval \<Rightarrow> fval" where
  "fsub a b = fadd a (fneg b)"

definition inf_of_sign :: "bool \<Rightarrow> fval" where
  "inf_of_sign neg = (if neg then NInf else PInf)"

fun is_neg :: "fval \<Rightarrow> bool" where
  "is_neg (Fin x) = (x < 0)"
| "is_neg NInf = True"
| "is_neg _ = False"

fun fmul :: "fval \<Rightarrow> fval \<Rightarrow> fval" where
  "fmul (Fin x) (Fin y) = round_to Binary32 (x * y)"
| "fmul NaN _ = NaN"
| "fmul _ NaN = NaN"
| "fmul (Fin x) b = (if x = 0 then NaN else inf_of_sign (is_neg (Fin x) \<noteq> is_neg b))"
| "fmul a (Fin y) = (if y = 0 then NaN else inf_of_sign (is_neg a \<noteq> is_neg (Fin y)))"
| "fmul a b = inf_of_sign (is_neg a \<noteq> is_neg b)"

fun fdiv :: "fval \<Rightarrow> fval \<Rightarrow> fval" where
  "fdiv (Fin x) (Fin y) =
     (if y = 0 then (if x = 0 then NaN else inf_of_sign (x < 0))
      else round_to Binary32 (x / y))"
| "fdiv NaN _ = NaN"
| "fdiv _ NaN = NaN"
| "fdiv (Fin x) _ = Fin 0"
| "fdiv a (Fin y) = inf_of_sign (is_neg a \<noteq> is_neg (Fin y))"
| "fdiv _ _ = NaN"

fun flt :: "fval \<Rightarrow> fval \<Rightarrow> bool" where
  "flt (Fin x) (Fin y) = (x < y)"
| "flt NaN _ = False"
| "flt _ NaN = False"
| "flt NInf b = (b \<noteq> NInf)"
| "flt a PInf = (a \<noteq> PInf)"
| "flt _ _ = False"

text \<open>
  Conversions: \<^verbatim>\<open>double\<close> to \<^verbatim>\<open>float\<close>, \<^verbatim>\<open>int\<close> to \<^verbatim>\<open>float\<close>, and \<^verbatim>\<open>float\<close> to
  \<^verbatim>\<open>int32_t\<close>.  The last one discards the fraction (truncation toward zero) and is
  undefined in C when the truncated value is not representable: \<open>None\<close>.
\<close>

fun d2f :: "fval \<Rightarrow> fval" where
  "d2f (Fin x) = round_to Binary32 x"
| "d2f v = v"

definition i2f :: "int \<Rightarrow> fval" where
  "i2f i = round_to Binary32 (of_int i)"

definition trunc :: "rat \<Rightarrow> int" where
  "trunc x = (if 0 \<le> x then \<lfloor>x\<rfloor> else \<lceil>x\<rceil>)"

fun f2i32 :: "fval \<Rightarrow> u32 option" where
  "f2i32 (Fin x) =
     (let t = trunc x in if - (2 ^ 31) \<le> t \<and> t < 2 ^ 31 then Some (word_of_int t) else None)"
| "f2i32 _ = None"

section \<open>C library: atoi and atof\<close>

text \<open>
  \<^verbatim>\<open>atoi\<close> skips white space, reads an optional sign and the decimal digits that follow,
  and stops at the first other character; a value that does not fit \<^verbatim>\<open>int\<close> is
  undefined (\<open>None\<close>).  \<^verbatim>\<open>atof\<close> is \<^verbatim>\<open>strtod\<close>: after white space and sign it reads a
  decimal number with optional fraction and exponent, a hexadecimal one with optional
  binary exponent, an infinity or a NaN, and returns the nearest \<^verbatim>\<open>double\<close>; without
  any digit the result is 0.
\<close>

definition isspace :: "char \<Rightarrow> bool" where
  "isspace c = (c = CHR '' '' \<or> (9 \<le> (of_char c :: nat) \<and> (of_char c :: nat) \<le> 13))"

definition isdigit :: "char \<Rightarrow> bool" where
  "isdigit c = (48 \<le> (of_char c :: nat) \<and> (of_char c :: nat) \<le> 57)"

definition isxdigit :: "char \<Rightarrow> bool" where
  "isxdigit c = (isdigit c \<or> (65 \<le> (of_char c :: nat) \<and> (of_char c :: nat) \<le> 70)
                 \<or> (97 \<le> (of_char c :: nat) \<and> (of_char c :: nat) \<le> 102))"

definition tolower :: "char \<Rightarrow> char" where
  "tolower c = (if 65 \<le> (of_char c :: nat) \<and> (of_char c :: nat) \<le> 90
                then char_of (of_char c + 32 :: nat) else c)"

definition digit_val :: "char \<Rightarrow> int" where
  "digit_val c = (if isdigit c then of_char c - 48 else of_char (tolower c) - 87)"

definition numeral_val :: "int \<Rightarrow> string \<Rightarrow> int" where
  "numeral_val base ds = foldl (\<lambda>n c. base * n + digit_val c) 0 ds"

fun sign_split :: "string \<Rightarrow> bool \<times> string" where
  "sign_split [] = (False, [])"
| "sign_split (c # s) =
     (if c = CHR ''-'' then (True, s) else if c = CHR ''+'' then (False, s) else (False, c # s))"

definition atoi :: "string \<Rightarrow> int option" where
  "atoi s =
     (let (neg, r) = sign_split (dropWhile isspace s);
          n = numeral_val 10 (takeWhile isdigit r);
          v = (if neg then - n else n)
      in if - (2 ^ 31) \<le> v \<and> v < 2 ^ 31 then Some v else None)"

definition mantissa :: "(char \<Rightarrow> bool) \<Rightarrow> string \<Rightarrow> string \<times> string \<times> string" where
  "mantissa dig s =
     (let ip = takeWhile dig s
      in case dropWhile dig s of
           [] \<Rightarrow> (ip, [], [])
         | c # r \<Rightarrow> if c = CHR ''.'' then (ip, takeWhile dig r, dropWhile dig r)
                    else (ip, [], c # r))"

definition exponent :: "char \<Rightarrow> string \<Rightarrow> int" where
  "exponent mark s =
     (case s of
        [] \<Rightarrow> 0
      | c # r \<Rightarrow>
          if tolower c = mark
          then (let (neg, r') = sign_split r; ds = takeWhile isdigit r'
                in if ds = [] then 0 else if neg then - numeral_val 10 ds else numeral_val 10 ds)
          else 0)"

definition atof :: "string \<Rightarrow> fval" where
  "atof s =
     (let (neg, r) = sign_split (dropWhile isspace s);
          lr = map tolower r;
          (hi, hf, hr) = mantissa isxdigit (drop 2 r);
          (di, df, dr) = mantissa isdigit r;
          sg = (\<lambda>v. if neg then fneg v else v)
      in if take 2 lr = ''0x'' \<and> (hi \<noteq> [] \<or> hf \<noteq> [])
         then sg (round_to Binary64
                (of_int (numeral_val 16 (hi @ hf)) *
                 2 powi (exponent CHR ''p'' hr - 4 * int (length hf))))
         else if di \<noteq> [] \<or> df \<noteq> []
         then sg (round_to Binary64
                (of_int (numeral_val 10 (di @ df)) *
                 10 powi (exponent CHR ''e'' dr - int (length df))))
         else if take 3 lr = ''inf'' then sg PInf
         else if take 3 lr = ''nan'' then NaN
         else Fin 0)"

section \<open>Unit mapper (klvgen.c, mapValue, mapLatitude, mapLongitude, mapAltitude)\<close>

text \<open>
  \<^verbatim>\<open>return (int32_t)(outStart + (((outEnd - outStart) / (inEnd - inStart)) * (val - inStart)));\<close>
  with \<^verbatim>\<open>float\<close> parameters.  The callers pass \<^verbatim>\<open>double\<close> and \<^verbatim>\<open>int\<close> constants, which
  are converted to \<^verbatim>\<open>float\<close> at the call; \<open>mapLatitude\<close> and \<open>mapLongitude\<close> read the
  input with \<^verbatim>\<open>atof\<close> into a \<^verbatim>\<open>float\<close>, \<open>mapAltitude\<close> reads it with \<^verbatim>\<open>atoi\<close> into an
  \<^verbatim>\<open>int\<close> and converts the 32-bit result to \<^verbatim>\<open>uint16_t\<close>.  A 32-bit word stands for the
  \<^verbatim>\<open>int32_t\<close> result; \<open>sint\<close> reads it.
\<close>

definition mapValue :: "fval \<Rightarrow> fval \<Rightarrow> fval \<Rightarrow> fval \<Rightarrow> fval \<Rightarrow> u32 option" where
  "mapValue val inStart inEnd outStart outEnd =
     f2i32 (fadd outStart
              (fmul (fdiv (fsub outEnd outStart) (fsub inEnd inStart)) (fsub val inStart)))"

definition mapLatitude :: "string \<Rightarrow> u32 option" where
  "mapLatitude str =
     (let lat = d2f (atof str)
      in mapValue lat (d2f (Fin (- 90))) (d2f (Fin 90))
           (d2f (Fin (- 2147483647))) (d2f (Fin 2147483647)))"

definition mapLongitude :: "string \<Rightarrow> u32 option" where
  "mapLongitude str =
     (let lon = d2f (atof str)
      in mapValue lon (d2f (Fin (- 180))) (d2f (Fin 180))
           (i2f (- 2147483647)) (i2f 2147483647))"

definition mapAltitude :: "string \<Rightarrow> u16 option" where
  "mapAltitude str =
     (case atoi str of
        None \<Rightarrow> None
      | Some alt \<Rightarrow>
          map_option ucast (mapValue (i2f alt) (i2f (- 900)) (i2f 19000) (i2f 0) (i2f 65535)))"

section \<open>Clock source (klvgen.c, updateTimestamp)\<close>

text \<open>
  The function has three branches, chosen at compile time; the reading of the system
  clock is the input of the model.
  \<^item> \<^verbatim>\<open>WIN32\<close>: \<open>now\<close> is the system time as a \<^verbatim>\<open>FILETIME\<close>, a count of 100 ns since
    1601; the epoch of 1970 as a \<^verbatim>\<open>FILETIME\<close> is 116444736000000000.
    \<^verbatim>\<open>if (now.QuadPart > epoch.QuadPart) return (now.QuadPart - epoch.QuadPart) / 10; else return 0;\<close>
  \<^item> \<^verbatim>\<open>__gnu_linux__\<close>: the fields of the \<^verbatim>\<open>timespec\<close>, converted to \<^verbatim>\<open>uint64_t\<close>.
    \<^verbatim>\<open>return (uint64_t)ts.tv_sec * 1000000 + (uint64_t)ts.tv_nsec / 1000;\<close>
  \<^item> \<^verbatim>\<open>__APPLE__\<close>: the fields of the \<^verbatim>\<open>mach_timespec_t\<close>, an \<^verbatim>\<open>unsigned int\<close> and an
    \<^verbatim>\<open>int\<close>, widened to \<^verbatim>\<open>long\<close>.
    \<^verbatim>\<open>return (uint64_t)((ts.tv_sec * 10^9) + ts.tv_nsec);\<close>
    where \<^verbatim>\<open>^\<close> is exclusive or and binds weaker than \<^verbatim>\<open>*\<close>.
\<close>

datatype clock_reading =
    FileTime u64
  | TimeSpec u64 u64
  | MachTimeSpec u32 u32

definition epoch_filetime :: u64 where
  "epoch_filetime = 116444736000000000"

fun updateTimestamp :: "clock_reading \<Rightarrow> u64" where
  "updateTimestamp (FileTime now) =
     (if epoch_filetime < now then (now - epoch_filetime) div 10 else 0)"
| "updateTimestamp (TimeSpec tv_sec tv_nsec) = tv_sec * 1000000 + tv_nsec div 1000"
| "updateTimestamp (MachTimeSpec tv_sec tv_nsec) =
     ((ucast tv_sec * 10) XOR 9) + scast tv_nsec"

section \<open>Command line and transmission loop (main)\<close>

text \<open>
  The file-scope variables as \<open>main\<close> sees them.  A coded field is \<open>None\<close> when the
  conversion that produced it is undefined in C (the mapping left the range of
  \<^verbatim>\<open>int32_t\<close>); the targets produce some value there and go on, so the model goes on
  with a field of unknown content.  \<^verbatim>\<open>DEBUG\<close> is 0 throughout, so the blocks that it
  guards are left out.
\<close>

record session =
  s_address :: "u8 list"
  s_servPort :: "int option"
  s_sendRate :: fval
  s_missionId :: "u8 list"
  s_platform :: "u8 list"
  s_latitude :: "u32 option"
  s_longitude :: "u32 option"
  s_altitude :: "u16 option"
  s_checksum :: u32
  s_timestamp :: u64

definition globals_of :: "session \<Rightarrow> globals option" where
  "globals_of s =
     (case (s_latitude s, s_longitude s, s_altitude s) of
        (Some la, Some lo, Some al) \<Rightarrow>
          Some \<lparr>missionId = s_missionId s, platform = s_platform s, altitude = al,
                checksum = s_checksum s, latitude = la, longitude = lo,
                timestamp = s_timestamp s\<rparr>
      | _ \<Rightarrow> None)"

text \<open>
  What the program does to the outside: a line printed (the format string stands for
  the line), the creation of the socket in \<^verbatim>\<open>udpInit\<close>, a datagram handed to
  \<^verbatim>\<open>sendto\<close>, and the exit status.
\<close>

datatype event = Printf string | Socket | SendTo "u8 list option" | Exit int

text \<open>
  \<^verbatim>\<open>strcpy\<close> into a zero-initialised array of \<open>n\<close> bytes, and \<^verbatim>\<open>strncpy\<close>, which copies
  at most \<open>n\<close> characters and pads with zero bytes.
\<close>

definition strcpy :: "nat \<Rightarrow> string \<Rightarrow> u8 list" where
  "strcpy n src = map of_char src @ replicate (n - length src) 0"

definition strncpy :: "string \<Rightarrow> nat \<Rightarrow> u8 list" where
  "strncpy src n = map of_char (take n src) @ replicate (n - length src) 0"

definition atol :: "string \<Rightarrow> int option" where
  "atol s =
     (let (neg, r) = sign_split (dropWhile isspace s);
          n = numeral_val 10 (takeWhile isdigit r);
          v = (if neg then - n else n)
      in if - (2 ^ 63) \<le> v \<and> v < 2 ^ 63 then Some v else None)"

text \<open>The assignments at the start of \<open>main\<close>.\<close>

definition defaults :: "endianness \<Rightarrow> clock_reading \<Rightarrow> session" where
  "defaults e clk =
     \<lparr>s_address = strcpy 16 ''127.0.0.1'',
      s_servPort = Some 9000,
      s_sendRate = d2f (Fin 1),
      s_missionId = strcpy 13 ''Mission 01'',
      s_platform = strcpy 13 ''Demo'',
      s_latitude = map_option (htonl e) (mapLatitude ''44.64423''),
      s_longitude = map_option (htonl e) (mapLongitude ''-93.24013''),
      s_altitude = map_option (htons e) (mapAltitude ''333''),
      s_checksum = 0,
      s_timestamp = updateTimestamp clk\<rparr>"

text \<open>
  One round of the \<^verbatim>\<open>getopt_long\<close> loop: the option character and its argument are the
  input, any character that is not an option of the program takes the \<^verbatim>\<open>default\<close> branch.
  The result is the lines printed and the new variables, or \<open>None\<close> when the branch calls
  \<^verbatim>\<open>exit(0)\<close>.  Latitude, longitude and altitude are mapped and stored before their range
  is checked, as in the source.  (The loop variable is a \<^verbatim>\<open>char\<close> compared with -1; the
  model follows the targets where \<^verbatim>\<open>char\<close> is signed, so that the loop ends with the
  options.)
\<close>

definition handle_option :: "endianness \<Rightarrow> session \<Rightarrow> char \<times> string \<Rightarrow> event list \<times> session option" where
  "handle_option e s opt =
     (let (optc, optarg) = opt in
      if optc = CHR ''a'' then
        ([Printf ''Address received: %s''],
         Some (s\<lparr>s_address := (strncpy optarg 16)[15 := 0]\<rparr>))
      else if optc = CHR ''p'' then
        ([Printf ''Port received: %d''],
         Some (s\<lparr>s_servPort := map_option (\<lambda>v. sint (word_of_int v :: u32)) (atol optarg)\<rparr>))
      else if optc = CHR ''r'' then
        (let s = s\<lparr>s_sendRate := d2f (atof optarg)\<rparr> in
         if flt (i2f 1000000) (s_sendRate s)
         then ([Printf ''Rate received: %f'',
                Printf ''Values greater than 1,000,000 packets per second are not supported''], None)
         else ([Printf ''Rate received: %f''], Some s))
      else if optc = CHR ''m'' then
        ((if 12 < length optarg then [Printf ''WARNING: Mission ID truncated to 12 characters'']
          else []) @ [Printf ''Mission ID received: %s''],
         Some (s\<lparr>s_missionId := strncpy optarg 12 @ [0]\<rparr>))
      else if optc = CHR ''n'' then
        ((if 12 < length optarg then [Printf ''WARNING: Platform truncated to 12 characters'']
          else []) @ [Printf ''Platform received: %s''],
         Some (s\<lparr>s_platform := strncpy optarg 12 @ [0]\<rparr>))
      else if optc = CHR ''t'' then
        (let s = s\<lparr>s_latitude := map_option (htonl e) (mapLatitude optarg)\<rparr> in
         if flt (atof optarg) (Fin (- 90)) \<or> flt (Fin 90) (atof optarg)
         then ([Printf ''Latitude received: %s'',
                Printf ''ERROR: Latitude out of range (-90,90)''], None)
         else ([Printf ''Latitude received: %s''], Some s))
      else if optc = CHR ''g'' then
        (let s = s\<lparr>s_longitude := map_option (htonl e) (mapLongitude optarg)\<rparr> in
         if flt (atof optarg) (Fin (- 180)) \<or> flt (Fin 180) (atof optarg)
         then ([Printf ''Longitude received: %s'',
                Printf ''ERROR: Longitude out of range (-180,180)''], None)
         else ([Printf ''Longitude received: %s''], Some s))
      else if optc = CHR ''e'' then
        (let s = s\<lparr>s_altitude := map_option (htons e) (mapAltitude optarg)\<rparr> in
         if flt (atof optarg) (Fin (- 900)) \<or> flt (Fin 19000) (atof optarg)
         then ([Printf ''Altitude received: %s'',
                Printf ''ERROR: Altitude out of range(-900,19000)''], None)
         else ([Printf ''Altitude received: %s''], Some s))
      else if optc = CHR ''h'' then ([Printf ''Usage: klvgen -a <address> -p <port> -r <rate> ...''], None)
      else if optc = CHR ''v'' then ([], None)
      else ([Printf ''Usage: klvgen -a <address>:<port> -r <rate> -m<mission-id> -p <platform> -t <lat> -g <long> -e <elev>'',
             Printf ''For help use option -h or --help''], None))"

fun parse_options :: "endianness \<Rightarrow> session \<Rightarrow> (char \<times> string) list \<Rightarrow> event list \<times> session option" where
  "parse_options e s [] = ([], Some s)"
| "parse_options e s (opt # opts) =
     (case handle_option e s opt of
        (out, None) \<Rightarrow> (out @ [Exit 0], None)
      | (out, Some s') \<Rightarrow> (let (out', r) = parse_options e s' opts in (out @ out', r)))"

text \<open>
  The transmission loop never ends; the model runs one round for each clock reading of a
  list and so gives every finite prefix of the run.  The send buffer is the file-scope
  array of 79 bytes, kept from round to round.
\<close>

fun main_loop :: "endianness \<Rightarrow> session \<Rightarrow> u8 list \<Rightarrow> clock_reading list \<Rightarrow> event list" where
  "main_loop e s buff [] = []"
| "main_loop e s buff (clk # clks) =
     (let s = s\<lparr>s_timestamp := htonll e (updateTimestamp clk)\<rparr> in
      case globals_of s of
        None \<Rightarrow> SendTo None # main_loop e s buff clks
      | Some g \<Rightarrow>
          (let (g, buff) = makePacket e g buff
           in SendTo (Some (packet_of buff)) #
              main_loop e (s\<lparr>s_checksum := checksum g\<rparr>) buff clks))"

text \<open>
  \<open>sock_ok\<close> tells whether \<^verbatim>\<open>socket\<close> succeeds; if not, \<^verbatim>\<open>udpInit\<close> returns -1 and \<open>main\<close>
  exits with status -1.
\<close>

definition main :: "endianness \<Rightarrow> clock_reading \<Rightarrow> (char \<times> string) list \<Rightarrow> bool \<Rightarrow> clock_reading list \<Rightarrow> event list" where
  "main e clk opts sock_ok clks =
     (let s = defaults e clk;
          (out, r) = parse_options e s opts
      in Printf ''UDP Generator, Version 1.0.1'' # out @
         (case r of
            None \<Rightarrow> []
          | Some s \<Rightarrow>
              if sock_ok then Socket # main_loop e s (replicate 79 0) clks
              else [Socket, Printf ''Unable to create socket.'', Exit (- 1)]))"


text \<open>
  The variables that \<open>makePacket\<close> reads at the first tick when no option is given.
\<close>

definition default_globals :: "endianness \<Rightarrow> clock_reading \<Rightarrow> globals option" where
  "default_globals e clk =
     globals_of ((defaults e clk)\<lparr>s_timestamp := htonll e (updateTimestamp clk)\<rparr>)"

section \<open>Auxiliary definitions for the statements\<close>

text \<open>The shift that \<open>makeChecksum\<close> applies to the byte at index \<open>i\<close>.\<close>

definition weight :: "nat \<Rightarrow> nat" where
  "weight i = (if odd (i + 1) then 8 else 0)"

text \<open>A buffer whose first bytes have been overwritten by \<open>pre\<close>.\<close>

definition filled :: "u8 list \<Rightarrow> u8 list \<Rightarrow> u8 list" where
  "filled pre buff = pre @ drop (length pre) buff"

text \<open>The first 76 bytes that \<open>makePacket\<close> leaves in the buffer.\<close>

definition fields_image :: "endianness \<Rightarrow> globals \<Rightarrow> u8 list" where
  "fields_image e g =
     uasLdsKey @ [msgLength] @ timestampTagLen @ object_bytes e 8 (timestamp g) @
     missionTagLen @ take 12 (missionId g) @ platformTagLen @ take 12 (platform g) @
     latitudeTagLen @ object_bytes e 4 (latitude g) @
     longitudeTagLen @ object_bytes e 4 (longitude g) @
     altitudeTagLen @ object_bytes e 2 (altitude g) @
     versionTagLen @ [ldsVersion] @ checksumTagLen"

text \<open>The single-precision value that \<open>mapValue\<close> converts to an integer.\<close>

definition affine :: "fval \<Rightarrow> fval \<Rightarrow> fval \<Rightarrow> fval \<Rightarrow> fval \<Rightarrow> fval" where
  "affine val inStart inEnd outStart outEnd =
     fadd outStart (fmul (fdiv (fsub outEnd outStart) (fsub inEnd inStart)) (fsub val inStart))"

text \<open>
  An option whose argument is out of range (a rate above 1,000,000, a latitude outside
  [-90, 90], a longitude outside [-180, 180], an altitude outside [-900, 19000]), the
  diagnostic that belongs to the option, and the events that are printed lines.
\<close>

definition out_of_range :: "char \<times> string \<Rightarrow> bool" where
  "out_of_range opt =
     (let (optc, optarg) = opt in
        (optc = CHR ''r'' \<and> flt (i2f 1000000) (d2f (atof optarg))) \<or>
        (optc = CHR ''t'' \<and> (flt (atof optarg) (Fin (- 90)) \<or> flt (Fin 90) (atof optarg))) \<or>
        (optc = CHR ''g'' \<and> (flt (atof optarg) (Fin (- 180)) \<or> flt (Fin 180) (atof optarg))) \<or>
        (optc = CHR ''e'' \<and> (flt (atof optarg) (Fin (- 900)) \<or> flt (Fin 19000) (atof optarg))))"

definition diagnostic :: "char \<Rightarrow> string" where
  "diagnostic optc =
     (if optc = CHR ''r'' then ''Values greater than 1,000,000 packets per second are not supported''
      else if optc = CHR ''t'' then ''ERROR: Latitude out of range (-90,90)''
      else if optc = CHR ''g'' then ''ERROR: Longitude out of range (-180,180)''
      else ''ERROR: Altitude out of range(-900,19000)'')"

definition is_printf :: "event \<Rightarrow> bool" where
  "is_printf ev = (case ev of Printf m \<Rightarrow> True | _ \<Rightarrow> False)"

text \<open>
  Plain decimal notation: an optional sign, digits, and optionally a point and more
  digits, with at least one digit; and the rational number that such a text denotes.
\<close>

definition is_decimal :: "string \<Rightarrow> bool" where
  "is_decimal s =
     (let (neg, r) = sign_split s; (ip, fp, rest) = mantissa isdigit r
      in rest = [] \<and> (ip \<noteq> [] \<or> fp \<noteq> []))"

definition decimal_value :: "string \<Rightarrow> rat" where
  "decimal_value s =
     (let (neg, r) = sign_split s; (ip, fp, rest) = mantissa isdigit r;
          v = of_int (numeral_val 10 (ip @ fp)) * 10 powi (- int (length fp))
      in if neg then - v else v)"

section \<open>Properties of the byte-order normalisation\<close>

lemma sysIsBigEndian_iff: "sysIsBigEndian e \<longleftrightarrow> e = BigEndian"
  by (cases e) (simp_all add: sysIsBigEndian_def object_bytes_def le_bytes_def be_bytes_def
      upt_conv_Cons)

lemma byte_idx: "8 * k \<le> n \<Longrightarrow> n < 8 * k + 8 \<Longrightarrow> n div 8 = k \<and> n mod 8 = n - 8 * k"
  for n k :: nat
proof -
  assume a: "8 * k \<le> n" and b: "n < 8 * k + 8"
  then obtain r where r: "n = 8 * k + r" using le_Suc_ex by blast
  with b have "r < 8" by simp
  with r show ?thesis by simp
qed

lemma mask_consts64:
  "(0xFF :: u64) = mask 8"
  "(0xFF00 :: u64) = push_bit 8 (mask 8)"
  "(0xFF0000 :: u64) = push_bit 16 (mask 8)"
  "(0xFF000000 :: u64) = push_bit 24 (mask 8)"
  "(0xFF00000000 :: u64) = push_bit 32 (mask 8)"
  "(0xFF0000000000 :: u64) = push_bit 40 (mask 8)"
  "(0xFF000000000000 :: u64) = push_bit 48 (mask 8)"
  "(0xFF00000000000000 :: u64) = push_bit 56 (mask 8)"
  by (simp_all add: mask_eq_exp_minus_1)

lemma bit_htonll_le:
  "bit (htonll LittleEndian x) n \<longleftrightarrow> n < 64 \<and> bit x (8 * (7 - n div 8) + n mod 8)"
proof -
  consider "n < 8" | "8 \<le> n" "n < 16" | "16 \<le> n" "n < 24" | "24 \<le> n" "n < 32"
    | "32 \<le> n" "n < 40" | "40 \<le> n" "n < 48" | "48 \<le> n" "n < 56" | "56 \<le> n" "n < 64"
    | "64 \<le> n"
    by linarith
  then show ?thesis
  proof cases
    case 1
    then show ?thesis using byte_idx [of 0 n]
      unfolding htonll_def sysIsBigEndian_iff mask_consts64 by (auto simp: bit_simps)
  next
    case 2
    then show ?thesis using byte_idx [of 1 n]
      unfolding htonll_def sysIsBigEndian_iff mask_consts64 by (auto simp: bit_simps)
  next
    case 3
    then show ?thesis using byte_idx [of 2 n]
      unfolding htonll_def sysIsBigEndian_iff mask_consts64 by (auto simp: bit_simps)
  next
    case 4
    then show ?thesis using byte_idx [of 3 n]
      unfolding htonll_def sysIsBigEndian_iff mask_consts64 by (auto simp: bit_simps)
  next
    case 5
    then show ?thesis using byte_idx [of 4 n]
      unfolding htonll_def sysIsBigEndian_iff mask_consts64 by (auto simp: bit_simps)
  next
    case 6
    then show ?thesis using byte_idx [of 5 n]
      unfolding htonll_def sysIsBigEndian_iff mask_consts64 by (auto simp: bit_simps)
  next
    case 7
    then show ?thesis using byte_idx [of 6 n]
      unfolding htonll_def sysIsBigEndian_iff mask_consts64 by (auto simp: bit_simps)
  next
    case 8
    then show ?thesis using byte_idx [of 7 n]
      unfolding htonll_def sysIsBigEndian_iff mask_consts64 by (auto simp: bit_simps)
  next
    case 9
    then show ?thesis
      unfolding htonll_def sysIsBigEndian_iff mask_consts64 by (auto simp: bit_simps)
  qed
qed

lemma swap_index: "n < 64 \<Longrightarrow> 8 * (7 - n div 8) + n mod 8 < 64" for n :: nat
  by arith

lemma swap_index_twice:
  "n < 64 \<Longrightarrow>
   8 * (7 - (8 * (7 - n div 8) + n mod 8) div 8) + (8 * (7 - n div 8) + n mod 8) mod 8 = n"
  for n :: nat
  by simp

text \<open>
  C9: the 64-bit byte-order normalisation is its own inverse: applying \<open>htonll\<close> twice
  gives back the value, on a little-endian host (where it reverses the eight bytes) and
  on a big-endian host (where it is the identity).
\<close>

theorem htonll_involution: "htonll e (htonll e x) = x"
proof (cases e)
  case BigEndian
  then show ?thesis by (simp add: htonll_def sysIsBigEndian_iff)
next
  case LittleEndian
  have "htonll LittleEndian (htonll LittleEndian x) = x"
  proof (rule bit_word_eqI)
    fix n assume "n < LENGTH(64)"
    then have n: "n < 64" by simp
    show "bit (htonll LittleEndian (htonll LittleEndian x)) n = bit x n"
      using n swap_index [OF n] swap_index_twice [OF n]
      by (simp only: bit_htonll_le simp_thms)
  qed
  with LittleEndian show ?thesis by simp
qed

text \<open>
  The fields that \<open>main\<close> normalises with \<open>htonll\<close>, \<open>htonl\<close> and \<open>htons\<close> have the
  network byte order as their object representation on either host.
\<close>

lemma mask_consts32:
  "(0xFF :: u32) = mask 8"
  "(0xFF00 :: u32) = push_bit 8 (mask 8)"
  "(0xFF0000 :: u32) = push_bit 16 (mask 8)"
  "(0xFF000000 :: u32) = push_bit 24 (mask 8)"
  by (simp_all add: mask_eq_exp_minus_1)

lemma mask_consts16:
  "(0xFF :: u16) = mask 8"
  "(0xFF00 :: u16) = push_bit 8 (mask 8)"
  by (simp_all add: mask_eq_exp_minus_1)

lemma bit_htonl_le:
  "bit (htonl LittleEndian x) n \<longleftrightarrow> n < 32 \<and> bit x (8 * (3 - n div 8) + n mod 8)"
proof -
  consider "n < 8" | "8 \<le> n" "n < 16" | "16 \<le> n" "n < 24" | "24 \<le> n" "n < 32" | "32 \<le> n"
    by linarith
  then show ?thesis
  proof cases
    case 1
    then show ?thesis using byte_idx [of 0 n]
      unfolding htonl_def mask_consts32 by (auto simp: bit_simps)
  next
    case 2
    then show ?thesis using byte_idx [of 1 n]
      unfolding htonl_def mask_consts32 by (auto simp: bit_simps)
  next
    case 3
    then show ?thesis using byte_idx [of 2 n]
      unfolding htonl_def mask_consts32 by (auto simp: bit_simps)
  next
    case 4
    then show ?thesis using byte_idx [of 3 n]
      unfolding htonl_def mask_consts32 by (auto simp: bit_simps)
  next
    case 5
    then show ?thesis
      unfolding htonl_def mask_consts32 by (auto simp: bit_simps)
  qed
qed

lemma bit_htons_le:
  "bit (htons LittleEndian x) n \<longleftrightarrow> n < 16 \<and> bit x (8 * (1 - n div 8) + n mod 8)"
proof -
  consider "n < 8" | "8 \<le> n" "n < 16" | "16 \<le> n" by linarith
  then show ?thesis
  proof cases
    case 1
    then show ?thesis using byte_idx [of 0 n]
      unfolding htons_def mask_consts16 by (auto simp: bit_simps)
  next
    case 2
    then show ?thesis using byte_idx [of 1 n]
      unfolding htons_def mask_consts16 by (auto simp: bit_simps)
  next
    case 3
    then show ?thesis
      unfolding htons_def mask_consts16 by (auto simp: bit_simps)
  qed
qed

lemma swapped_bytes:
  fixes x y :: "'a::len word"
  assumes "LENGTH('a) = 8 * m"
    and "\<And>n. bit y n \<longleftrightarrow> n < 8 * m \<and> bit x (8 * (m - 1 - n div 8) + n mod 8)"
  shows "le_bytes m y = be_bytes m x"
proof (rule nth_equalityI)
  show "length (le_bytes m y) = length (be_bytes m x)"
    by (simp add: le_bytes_def be_bytes_def)
next
  fix i assume "i < length (le_bytes m y)"
  then have i: "i < m" by (simp add: le_bytes_def)
  have "ucast (drop_bit (8 * i) y) = (ucast (drop_bit (8 * (m - 1 - i)) x) :: u8)"
  proof (rule bit_word_eqI)
    fix n assume "n < LENGTH(8)"
    then have n: "n < 8" by simp
    then have d: "(8 * i + n) div 8 = i" "(8 * i + n) mod 8 = n" by simp_all
    have "8 * i + n < 8 * m" "8 * (m - 1 - i) + n < 8 * m" using i n by simp_all
    then show "bit (ucast (drop_bit (8 * i) y) :: u8) n = bit (ucast (drop_bit (8 * (m - 1 - i)) x) :: u8) n"
      using n assms(1) by (simp add: bit_simps assms(2) d add.commute)
  qed
  then show "le_bytes m y ! i = be_bytes m x ! i"
    using i by (simp add: le_bytes_def be_bytes_def rev_nth)
qed

lemma fields_network_order:
  "object_bytes e 8 (htonll e t) = be_bytes 8 t"
  "object_bytes e 4 (htonl e x) = be_bytes 4 x"
  "object_bytes e 2 (htons e a) = be_bytes 2 a"
proof -
  show "object_bytes e 8 (htonll e t) = be_bytes 8 t"
  proof (cases e)
    case BigEndian
    then show ?thesis by (simp add: object_bytes_def htonll_def sysIsBigEndian_iff)
  next
    case LittleEndian
    then show ?thesis
      using swapped_bytes [of 8 "htonll LittleEndian t" t] by (simp add: object_bytes_def bit_htonll_le)
  qed
  show "object_bytes e 4 (htonl e x) = be_bytes 4 x"
  proof (cases e)
    case BigEndian
    then show ?thesis by (simp add: object_bytes_def htonl_def)
  next
    case LittleEndian
    then show ?thesis
      using swapped_bytes [of 4 "htonl LittleEndian x" x] by (simp add: object_bytes_def bit_htonl_le)
  qed
  show "object_bytes e 2 (htons e a) = be_bytes 2 a"
  proof (cases e)
    case BigEndian
    then show ?thesis by (simp add: object_bytes_def htons_def)
  next
    case LittleEndian
    then show ?thesis
      using swapped_bytes [of 2 "htons LittleEndian a" a] by (simp add: object_bytes_def bit_htons_le)
  qed
qed

section \<open>Properties of the checksum\<close>

lemma checksum_step:
  "unat (bcc + push_bit (8 * ((k + 1) mod 2)) (ucast (b :: u8)) :: u16) =
     (unat bcc + push_bit (weight k) (unat b)) mod 65536"
proof -
  have b: "unat b < 256" using unsigned_less [of b] by simp
  have "unat (push_bit (8 * ((k + 1) mod 2)) (ucast b :: u16)) = push_bit (weight k) (unat b)"
  proof (cases "odd (k + 1)")
    case True
    then have "(k + 1) mod 2 = 1" by presburger
    moreover from b have "unat b * 256 < 2 ^ 16" by simp
    ultimately show ?thesis using True b
      by (simp add: weight_def push_bit_eq_mult unat_word_ariths unsigned_ucast_eq
          take_bit_nat_eq_self)
  next
    case False
    then have "(k + 1) mod 2 = 0" by presburger
    with False b show ?thesis
      by (simp add: weight_def unsigned_ucast_eq take_bit_nat_eq_self)
  qed
  then show ?thesis by (simp add: unat_word_ariths)
qed

lemma makeChecksum_loop_sum:
  "i \<le> len \<Longrightarrow>
   unat (makeChecksum_loop buff len bcc i) =
     (unat bcc + (\<Sum>k = unat i..<unat len. push_bit (weight k) (unat (buff ! k)))) mod 65536"
proof (induction buff len bcc i rule: makeChecksum_loop.induct)
  case (1 buff len bcc i)
  show ?case
  proof (cases "i < len")
    case True
    then have s: "unat (i + 1) = Suc (unat i)" by (rule unat_succ_less)
    from True have lt: "unat i < unat len" by (simp add: word_less_nat_alt)
    from True have "i + 1 \<le> len" by (rule inc_le)
    with "1.IH" [OF True] have
      "unat (makeChecksum_loop buff len bcc i) =
         (unat (bcc + push_bit (8 * ((unat i + 1) mod 2)) (ucast (buff ! unat i)) :: u16) +
           (\<Sum>k = Suc (unat i)..<unat len. push_bit (weight k) (unat (buff ! k)))) mod 65536"
      using True s
      by (simp del: makeChecksum_loop.simps add: makeChecksum_loop.simps [of buff len bcc i])
    also have "\<dots> = (unat bcc + push_bit (weight (unat i)) (unat (buff ! unat i)) +
           (\<Sum>k = Suc (unat i)..<unat len. push_bit (weight k) (unat (buff ! k)))) mod 65536"
      by (simp only: checksum_step mod_add_left_eq)
    also have "\<dots> =
        (unat bcc + (\<Sum>k = unat i..<unat len. push_bit (weight k) (unat (buff ! k)))) mod 65536"
      using lt by (simp add: sum.atLeast_Suc_lessThan add.assoc)
    finally show ?thesis .
  next
    case False
    with "1.prems" have "i = len" by simp
    then show ?thesis using unsigned_less [of bcc, where 'a = nat]
      by (simp add: makeChecksum_loop.simps [of buff len bcc len] del: makeChecksum_loop.simps)
  qed
qed

lemma makeChecksum_sum:
  "unat (makeChecksum buff len) =
     (\<Sum>k < unat len. push_bit (weight k) (unat (buff ! k))) mod 65536"
  using makeChecksum_loop_sum [of 0 len buff 0]
  by (simp add: makeChecksum_def lessThan_atLeast0)

lemma makeChecksum_cong:
  assumes "take (unat len) buff' = take (unat len) buff"
  shows "makeChecksum buff' len = makeChecksum buff len"
proof -
  have "buff' ! k = buff ! k" if "k < unat len" for k
    using that assms by (metis nth_take)
  then have "(\<Sum>k < unat len. push_bit (weight k) (unat (buff' ! k))) =
             (\<Sum>k < unat len. push_bit (weight k) (unat (buff ! k)))"
    by simp
  then have "unat (makeChecksum buff' len) = unat (makeChecksum buff len)"
    by (simp only: makeChecksum_sum)
  then show ?thesis by (simp add: word_unat_eq_iff)
qed

lemma makeChecksum_update_neq:
  assumes len: "unat len \<le> length buff" and i: "i < unat len" and v: "v \<noteq> buff ! i"
  shows "makeChecksum (buff[i := v]) len \<noteq> makeChecksum buff len"
proof
  let ?t = "\<lambda>b k. push_bit (weight k) (unat (b ! k :: u8))"
  let ?R = "\<Sum>k \<in> {..<unat len} - {i}. ?t buff k"
  assume "makeChecksum (buff[i := v]) len = makeChecksum buff len"
  then have eq: "(\<Sum>k < unat len. ?t (buff[i := v]) k) mod 65536 = (\<Sum>k < unat len. ?t buff k) mod 65536"
    by (simp only: makeChecksum_sum [symmetric])
  have il: "i < length buff" using len i by simp
  have s1: "(\<Sum>k < unat len. ?t buff k) = ?t buff i + ?R"
    using i by (simp add: sum.remove [of _ i])
  have "(\<Sum>k < unat len. ?t (buff[i := v]) k) = ?t (buff[i := v]) i + (\<Sum>k \<in> {..<unat len} - {i}. ?t (buff[i := v]) k)"
    using i by (simp add: sum.remove [of _ i])
  also have "(\<Sum>k \<in> {..<unat len} - {i}. ?t (buff[i := v]) k) = ?R"
    by (rule sum.cong) auto
  finally have s2: "(\<Sum>k < unat len. ?t (buff[i := v]) k) = push_bit (weight i) (unat v) + ?R"
    using il by simp
  define a where "a = unat (buff ! i)"
  define b where "b = unat v"
  have a: "a < 256" and b: "b < 256"
    using unsigned_less [of "buff ! i", where 'a = nat] unsigned_less [of v, where 'a = nat]
    by (simp_all add: a_def b_def)
  have ab: "a \<noteq> b" using v by (auto simp: a_def b_def word_unat_eq_iff)
  from eq s1 s2 have m: "(push_bit (weight i) b + ?R) mod 65536 = (push_bit (weight i) a + ?R) mod 65536"
    by (simp add: a_def b_def)
  have w: "weight i = 8 \<or> weight i = 0" by (simp add: weight_def)
  show False
  proof (cases "a < b")
    case True
    then have "push_bit (weight i) a + ?R \<le> push_bit (weight i) b + ?R"
      by (simp add: push_bit_eq_mult)
    with m have "65536 dvd (push_bit (weight i) b + ?R) - (push_bit (weight i) a + ?R)"
      by (simp add: mod_eq_dvd_iff_nat)
    then have d: "65536 dvd push_bit (weight i) b - push_bit (weight i) a" by simp
    have "0 < push_bit (weight i) b - push_bit (weight i) a"
      "push_bit (weight i) b - push_bit (weight i) a < 65536"
      using w True a b by (auto simp: push_bit_eq_mult)
    with d show False by (auto dest: dvd_imp_le)
  next
    case False
    with ab have lt: "b < a" by simp
    then have "push_bit (weight i) b + ?R \<le> push_bit (weight i) a + ?R"
      by (simp add: push_bit_eq_mult)
    with m [symmetric] have "65536 dvd (push_bit (weight i) a + ?R) - (push_bit (weight i) b + ?R)"
      by (simp add: mod_eq_dvd_iff_nat)
    then have d: "65536 dvd push_bit (weight i) a - push_bit (weight i) b" by simp
    have "0 < push_bit (weight i) a - push_bit (weight i) b"
      "push_bit (weight i) a - push_bit (weight i) b < 65536"
      using w lt a b by (auto simp: push_bit_eq_mult)
    with d show False by (auto dest: dvd_imp_le)
  qed
qed

lemma ilog2_bounds:
  assumes "0 < x"
  shows "2 powi (ilog2 x) \<le> x \<and> x < 2 powi (ilog2 x + 1)"
proof (cases "1 \<le> x")
  case True
  define n where "n = \<lfloor>x\<rfloor>"
  have n: "0 < n" using True by (simp add: n_def)
  from bitlen_bounds [OF n] have b: "2 ^ nat (bitlen n - 1) \<le> n" "n < 2 ^ nat (bitlen n)"
    by simp_all
  have k: "0 \<le> bitlen n - 1" using n by (simp add: bitlen_alt_def)
  have i: "ilog2 x = bitlen n - 1" using True by (simp add: ilog2_def n_def)
  have "(2::rat) powi (bitlen n - 1) = of_int (2 ^ nat (bitlen n - 1))"
    using k by (simp add: power_int_nonneg_exp)
  also have "\<dots> \<le> of_int n" using b(1) by (simp only: of_int_le_iff)
  also have "\<dots> \<le> x" by (simp add: n_def)
  finally have lo: "2 powi (ilog2 x) \<le> x" by (simp add: i)
  have "n + 1 \<le> 2 ^ nat (bitlen n)" using b(2) by simp
  then have "(of_int (n + 1) :: rat) \<le> of_int (2 ^ nat (bitlen n))" by (simp only: of_int_le_iff)
  moreover have "x < of_int (n + 1)" using floor_correct [of x] by (simp add: n_def)
  moreover have "(2::rat) powi (bitlen n - 1 + 1) = of_int (2 ^ nat (bitlen n))"
    using k by (simp add: power_int_nonneg_exp)
  ultimately have "x < 2 powi (ilog2 x + 1)" by (simp add: i)
  with lo show ?thesis by simp
next
  case False
  define y where "y = 1 / x"
  define m where "m = \<lceil>y\<rceil> - 1"
  have y: "1 < y" using False assms by (simp add: y_def)
  then have "2 \<le> \<lceil>y\<rceil>" by (simp add: le_ceiling_iff)
  then have m: "0 < m" by (simp add: m_def)
  from bitlen_bounds [OF m] have b: "2 ^ nat (bitlen m - 1) \<le> m" "m < 2 ^ nat (bitlen m)"
    by simp_all
  have k: "0 \<le> bitlen m - 1" using m by (simp add: bitlen_alt_def)
  have i: "ilog2 x = - bitlen m" using False by (simp add: ilog2_def m_def y_def)
  have my: "of_int m < y" "y \<le> of_int m + 1"
    by (simp_all add: m_def less_ceiling_iff [symmetric] ceiling_correct)
  have "y \<le> of_int (m + 1)" using my by simp
  also have "(of_int (m + 1) :: rat) \<le> of_int (2 ^ nat (bitlen m))"
    using b(2) by (simp only: of_int_le_iff)
  also have "(of_int (2 ^ nat (bitlen m)) :: rat) = 2 powi (bitlen m)"
    using k by (simp add: power_int_nonneg_exp)
  finally have "1 / x \<le> 2 powi (bitlen m)" by (simp add: y_def)
  then have lo: "2 powi (ilog2 x) \<le> x"
    using assms by (simp add: i power_int_minus field_simps)
  have "(2::rat) powi (bitlen m - 1) = of_int (2 ^ nat (bitlen m - 1))"
    using k by (simp add: power_int_nonneg_exp)
  also have "\<dots> \<le> of_int m" using b(1) by (simp only: of_int_le_iff)
  also have "\<dots> < y" by (rule my)
  finally have "2 powi (bitlen m - 1) < 1 / x" by (simp add: y_def)
  moreover have pos: "0 < (2::rat) powi (bitlen m - 1)" by (simp add: zero_less_power_int)
  ultimately have "x < 1 / 2 powi (bitlen m - 1)"
    using assms by (simp add: field_simps)
  then have "x < 2 powi (- (bitlen m - 1))"
    by (simp only: power_int_minus_divide)
  then have "x < 2 powi (ilog2 x + 1)" by (simp add: i)
  with lo show ?thesis by simp
qed

lemma powi2_le_imp: "(2::rat) powi a < 2 powi b \<Longrightarrow> a < b"
  by (rule ccontr) (simp add: not_less power_int_increasing not_le [symmetric])

lemma ilog2_mono:
  assumes "0 < x" "x \<le> y"
  shows "ilog2 x \<le> ilog2 y"
proof -
  have "2 powi (ilog2 x) \<le> x" using ilog2_bounds [OF assms(1)] by simp
  also have "x \<le> y" by fact
  also have "y < 2 powi (ilog2 y + 1)" using ilog2_bounds [of y] assms by simp
  finally have "ilog2 x < ilog2 y + 1" by (rule powi2_le_imp)
  then show ?thesis by simp
qed

lemma round_half_even_mono:
  assumes "r \<le> s"
  shows "round_half_even r \<le> round_half_even s"
proof (cases "\<lfloor>r\<rfloor> = \<lfloor>s\<rfloor>")
  case True
  with assms show ?thesis by (auto simp: round_half_even_def Let_def)
next
  case False
  with assms have "\<lfloor>r\<rfloor> < \<lfloor>s\<rfloor>" using floor_mono [OF assms] by simp
  then have "\<lfloor>r\<rfloor> + 1 \<le> \<lfloor>s\<rfloor>" by simp
  moreover have "round_half_even r \<le> \<lfloor>r\<rfloor> + 1" by (simp add: round_half_even_def Let_def)
  moreover have "\<lfloor>s\<rfloor> \<le> round_half_even s" by (simp add: round_half_even_def Let_def)
  ultimately show ?thesis by linarith
qed

lemma round_half_even_of_int [simp]: "round_half_even (of_int n) = n"
  by (simp add: round_half_even_def)

lemma round_half_even_uminus: "round_half_even (- r) = - round_half_even r"
proof (cases "r = of_int \<lfloor>r\<rfloor>")
  case True
  then obtain n where "r = of_int n" ..
  then show ?thesis by (simp flip: of_int_minus)
next
  case False
  then have c: "\<lceil>r\<rceil> = \<lfloor>r\<rfloor> + 1" by (simp add: ceiling_altdef)
  have f: "\<lfloor>- r\<rfloor> = - \<lfloor>r\<rfloor> - 1" using c by (simp add: ceiling_def)
  show ?thesis
    unfolding round_half_even_def Let_def f
    by (auto simp: field_simps)
qed

lemma round_half_even_0 [simp]: "round_half_even 0 = 0"
  using round_half_even_of_int [of 0] by simp

lemma round_half_even_pow2 [simp]: "round_half_even (2 ^ n) = 2 ^ n"
  using round_half_even_of_int [of "2 ^ n"] by simp

lemma prec_pos: "1 \<le> prec f" by (cases f) simp_all

lemma powi2_nat: "0 \<le> n \<Longrightarrow> (2::rat) powi n = of_int (2 ^ nat n)"
  by (simp add: power_int_nonneg_exp)

lemma powi2_split: "(2::rat) powi (a + b) = 2 powi a * 2 powi b"
  by (simp add: power_int_add)

lemma rnd_pos_eq:
  assumes "0 < x"
  shows "rnd f x = of_int (round_half_even (x / 2 powi (max (ilog2 x) (emin f) - prec f + 1))) *
                   2 powi (max (ilog2 x) (emin f) - prec f + 1)"
  using assms by (simp add: rnd_def Let_def)

lemma rnd_upper:
  assumes "0 < x"
  shows "rnd f x \<le> 2 powi (max (ilog2 x) (emin f) + 1)"
proof -
  define E where "E = max (ilog2 x) (emin f)"
  define q :: rat where "q = 2 powi (E - prec f + 1)"
  have q: "0 < q" by (simp add: q_def)
  have s: "(2::rat) powi (E + 1) = 2 powi (prec f) * q"
    unfolding q_def by (simp flip: powi2_split)
  have p: "(2::rat) powi (prec f) = of_int (2 ^ nat (prec f))"
    using prec_pos [of f] by (simp add: powi2_nat)
  have "x < 2 powi (ilog2 x + 1)" using ilog2_bounds [OF assms] by simp
  also have "\<dots> \<le> 2 powi (E + 1)" by (rule power_int_increasing) (simp_all add: E_def)
  finally have "x / q \<le> of_int (2 ^ nat (prec f))"
    using q by (simp add: s p field_simps)
  then have "round_half_even (x / q) \<le> 2 ^ nat (prec f)"
    using round_half_even_mono [of "x / q" "of_int (2 ^ nat (prec f))"] by simp
  then have "(of_int (round_half_even (x / q)) :: rat) \<le> of_int (2 ^ nat (prec f))"
    by (simp only: of_int_le_iff)
  then have "of_int (round_half_even (x / q)) * q \<le> of_int (2 ^ nat (prec f)) * q"
    using q by (simp only: mult_le_cancel_right_pos)
  then show ?thesis
    unfolding rnd_pos_eq [OF assms] E_def [symmetric] q_def [symmetric] s p .
qed

lemma rnd_lower:
  assumes "0 < x" "emin f \<le> ilog2 x"
  shows "2 powi (ilog2 x) \<le> rnd f x"
proof -
  define E where "E = ilog2 x"
  define q :: rat where "q = 2 powi (E - prec f + 1)"
  have m: "max E (emin f) = E" using assms by (simp add: E_def)
  have q: "0 < q" by (simp add: q_def)
  have s: "(2::rat) powi E = 2 powi (prec f - 1) * q"
    unfolding q_def by (simp flip: powi2_split)
  have p: "(2::rat) powi (prec f - 1) = of_int (2 ^ nat (prec f - 1))"
    using prec_pos [of f] by (simp add: powi2_nat)
  have "2 powi E \<le> x" using ilog2_bounds [OF assms(1)] by (simp add: E_def)
  then have "of_int (2 ^ nat (prec f - 1)) \<le> x / q"
    using q by (simp add: s p field_simps)
  then have "2 ^ nat (prec f - 1) \<le> round_half_even (x / q)"
    using round_half_even_mono [of "of_int (2 ^ nat (prec f - 1))" "x / q"] by simp
  then have "(of_int (2 ^ nat (prec f - 1)) :: rat) \<le> of_int (round_half_even (x / q))"
    by (simp only: of_int_le_iff)
  then have "of_int (2 ^ nat (prec f - 1)) * q \<le> of_int (round_half_even (x / q)) * q"
    using q by (simp only: mult_le_cancel_right_pos)
  then show ?thesis
    unfolding rnd_pos_eq [OF assms(1)] E_def [symmetric] m q_def [symmetric] s p .
qed

lemma rnd_nonneg:
  assumes "0 \<le> x"
  shows "0 \<le> rnd f x"
proof (cases "x = 0")
  case True
  then show ?thesis by (simp add: rnd_def)
next
  case False
  with assms have x: "0 < x" by simp
  define q :: rat where "q = 2 powi (max (ilog2 x) (emin f) - prec f + 1)"
  have q: "0 < q" by (simp add: q_def)
  then have "0 \<le> x / q" using x by simp
  then have "0 \<le> round_half_even (x / q)"
    using round_half_even_mono [of "of_int 0" "x / q"] by simp
  then show ?thesis
    using q unfolding rnd_pos_eq [OF x] q_def [symmetric] by simp
qed

lemma rnd_uminus: "rnd f (- x) = - rnd f x"
  by (simp add: rnd_def Let_def round_half_even_uminus)

lemma rnd_mono_pos:
  assumes "0 < x" "x \<le> y"
  shows "rnd f x \<le> rnd f y"
proof -
  have y: "0 < y" using assms by simp
  define Ex where "Ex = max (ilog2 x) (emin f)"
  define Ey where "Ey = max (ilog2 y) (emin f)"
  have le: "Ex \<le> Ey" using ilog2_mono [OF assms] by (simp add: Ex_def Ey_def)
  show ?thesis
  proof (cases "Ex = Ey")
    case True
    define q :: rat where "q = 2 powi (Ey - prec f + 1)"
    have q: "0 < q" by (simp add: q_def)
    then have "x / q \<le> y / q" using assms by (simp add: divide_right_mono)
    then have "(of_int (round_half_even (x / q)) :: rat) \<le> of_int (round_half_even (y / q))"
      using round_half_even_mono by (simp only: of_int_le_iff)
    then have "of_int (round_half_even (x / q)) * q \<le> of_int (round_half_even (y / q)) * q"
      using q by (simp only: mult_le_cancel_right_pos)
    then show ?thesis
      unfolding rnd_pos_eq [OF assms(1)] rnd_pos_eq [OF y] Ex_def [symmetric] Ey_def [symmetric]
        True q_def [symmetric] .
  next
    case False
    with le have lt: "Ex < Ey" by simp
    then have e: "emin f < ilog2 y" "Ey = ilog2 y" by (auto simp: Ex_def Ey_def)
    have "rnd f x \<le> 2 powi (Ex + 1)" using rnd_upper [OF assms(1)] by (simp add: Ex_def)
    also have "\<dots> \<le> 2 powi Ey" using lt by (intro power_int_increasing) simp_all
    also have "\<dots> \<le> rnd f y" using rnd_lower [OF y] e by simp
    finally show ?thesis .
  qed
qed

lemma rnd_mono:
  assumes "x \<le> y"
  shows "rnd f x \<le> rnd f y"
proof -
  consider "0 < x" | "x \<le> 0" "0 \<le> y" | "y < 0" by linarith
  then show ?thesis
  proof cases
    case 1
    then show ?thesis using assms by (rule rnd_mono_pos)
  next
    case 2
    then have "rnd f x \<le> 0" using rnd_nonneg [of "- x" f] by (simp add: rnd_uminus)
    also have "0 \<le> rnd f y" using 2 by (simp add: rnd_nonneg)
    finally show ?thesis .
  next
    case 3
    then have "rnd f (- y) \<le> rnd f (- x)" using assms by (intro rnd_mono_pos) simp_all
    then show ?thesis by (simp add: rnd_uminus)
  qed
qed

lemma ilog2_unique:
  assumes "0 < x" "2 powi e \<le> x" "x < 2 powi (e + 1)"
  shows "ilog2 x = e"
proof -
  have "2 powi (ilog2 x) \<le> x" using ilog2_bounds [OF assms(1)] by simp
  also have "x < 2 powi (e + 1)" by fact
  finally have a: "ilog2 x < e + 1" by (rule powi2_le_imp)
  have "2 powi e \<le> x" by fact
  also have "x < 2 powi (ilog2 x + 1)" using ilog2_bounds [OF assms(1)] by simp
  finally have "e < ilog2 x + 1" by (rule powi2_le_imp)
  with a show ?thesis by simp
qed

lemma round_half_even_unique:
  assumes "\<bar>r - of_int n\<bar> < 1 / 2 \<or> (\<bar>r - of_int n\<bar> = 1 / 2 \<and> even n)"
  shows "round_half_even r = n"
proof -
  consider "of_int n \<le> r" "r - of_int n < 1 / 2"
    | "r < of_int n" "of_int n - r < 1 / 2"
    | "r - of_int n = 1 / 2" "even n"
    | "of_int n - r = 1 / 2" "even n"
    using assms by (auto simp: abs_if split: if_splits)
  then show ?thesis
  proof cases
    case 1
    then have "\<lfloor>r\<rfloor> = n" by (intro floor_unique) simp_all
    with 1 show ?thesis by (simp add: round_half_even_def Let_def)
  next
    case 2
    then have f: "\<lfloor>r\<rfloor> = n - 1" by (intro floor_unique) simp_all
    with 2 show ?thesis by (simp add: round_half_even_def Let_def)
  next
    case 3
    then have "\<lfloor>r\<rfloor> = n" by (intro floor_unique) simp_all
    with 3 show ?thesis by (simp add: round_half_even_def Let_def)
  next
    case 4
    then have f: "\<lfloor>r\<rfloor> = n - 1" by (intro floor_unique) simp_all
    with 4 show ?thesis by (simp add: round_half_even_def Let_def)
  qed
qed

lemma round_to_cert:
  assumes x: "x \<noteq> 0"
    and lo: "2 powi e \<le> \<bar>x\<bar>" and hi: "\<bar>x\<bar> < 2 powi (e + 1)"
    and e: "emin f \<le> e" "e < emax f"
    and n: "\<bar>x - of_int n * 2 powi (e - prec f + 1)\<bar> < 2 powi (e - prec f + 1) / 2 \<or>
            (\<bar>x - of_int n * 2 powi (e - prec f + 1)\<bar> = 2 powi (e - prec f + 1) / 2 \<and> even n)"
  shows "round_to f x = Fin (of_int n * 2 powi (e - prec f + 1))"
proof -
  define q :: rat where "q = 2 powi (e - prec f + 1)"
  have q: "0 < q" by (simp add: q_def)
  have i: "ilog2 \<bar>x\<bar> = e" using x lo hi by (intro ilog2_unique) simp_all
  have m: "max e (emin f) = e" using e by simp
  have d: "x / q - of_int n = (x - of_int n * q) / q" using q by (simp add: field_simps)
  have "\<bar>x / q - of_int n\<bar> < 1 / 2 \<or> (\<bar>x / q - of_int n\<bar> = 1 / 2 \<and> even n)"
    using n q unfolding d q_def [symmetric] abs_divide by (auto simp: field_simps)
  then have r: "round_half_even (x / q) = n" by (rule round_half_even_unique)
  have y: "rnd f x = of_int n * q"
    using x by (simp add: rnd_def Let_def i m q_def [symmetric] r)
  have "\<bar>rnd f x\<bar> \<le> 2 powi (e + 1)"
  proof (cases "0 < x")
    case True
    then have "0 \<le> rnd f x" by (simp add: rnd_nonneg)
    moreover have "rnd f x \<le> 2 powi (max (ilog2 x) (emin f) + 1)" using True by (rule rnd_upper)
    ultimately show ?thesis using i m True by simp
  next
    case False
    with x have neg: "0 < - x" by simp
    then have "0 \<le> rnd f (- x)" by (simp add: rnd_nonneg)
    moreover have "rnd f (- x) \<le> 2 powi (max (ilog2 (- x)) (emin f) + 1)"
      using neg by (rule rnd_upper)
    ultimately show ?thesis using i m neg by (simp add: rnd_uminus)
  qed
  also have "(2::rat) powi (e + 1) < 2 powi (emax f + 1)"
    using e by (intro power_int_strict_increasing) simp_all
  finally show ?thesis by (simp add: round_to_def Let_def y q_def)
qed

lemma round_to_0 [simp]: "round_to f 0 = Fin 0"
  by (simp add: round_to_def rnd_def not_le)

lemma floor_rat_numeral [simp]: "\<lfloor>numeral a / numeral b :: rat\<rfloor> = numeral a div numeral b"
  by (metis floor_divide_of_int_eq of_int_numeral)

lemma ceiling_rat_neg_numeral [simp]:
  "\<lceil>- (numeral a / numeral b) :: rat\<rceil> = - (numeral a div numeral b)"
  by (simp add: ceiling_def)

lemma round_to_Fin_iff:
  "round_to f x = Fin a \<longleftrightarrow> rnd f x = a \<and> \<bar>a\<bar> < 2 powi (emax f + 1)"
  by (auto simp: round_to_def Let_def)

lemma round_to_between:
  assumes lo: "round_to f lo = Fin a" and hi: "round_to f hi = Fin b"
    and "lo \<le> x" "x \<le> y" "y \<le> hi"
  shows "\<exists>u v. round_to f x = Fin u \<and> round_to f y = Fin v \<and> a \<le> u \<and> u \<le> v \<and> v \<le> b"
proof -
  from lo hi have a: "rnd f lo = a" "\<bar>a\<bar> < 2 powi (emax f + 1)"
    and b: "rnd f hi = b" "\<bar>b\<bar> < 2 powi (emax f + 1)"
    by (simp_all add: round_to_Fin_iff)
  have o: "a \<le> rnd f x" "rnd f x \<le> rnd f y" "rnd f y \<le> b"
    using assms(3-) a(1) b(1) rnd_mono [of lo x f] rnd_mono [of x y f] rnd_mono [of y hi f]
    by simp_all
  then have "\<bar>rnd f x\<bar> < 2 powi (emax f + 1)" "\<bar>rnd f y\<bar> < 2 powi (emax f + 1)"
    using a(2) b(2) by (simp_all add: abs_less_iff)
  then have "round_to f x = Fin (rnd f x)" "round_to f y = Fin (rnd f y)"
    by (simp_all add: round_to_Fin_iff)
  with o show ?thesis by blast
qed

section \<open>Evaluation of the arithmetic at concrete values\<close>

text \<open>
  Each rounding below is checked from its certificate: the exponent of the argument and
  the integer significand of the result.
\<close>

lemma rc_1: "round_to Binary32 (- 2147483648) = Fin (- 2147483648)"
  using round_to_cert [of "- 2147483648" 31 Binary32 "- 8388608"] by (simp add: emin_def)

lemma rc_2: "round_to Binary32 (- 2147483647) = Fin (- 2147483648)"
  using round_to_cert [of "- 2147483647" 30 Binary32 "- 16777216"] by (simp add: emin_def)

lemma rc_3: "round_to Binary32 (- 1112398016) = Fin (- 1112398080)"
  using round_to_cert [of "- 1112398016" 30 Binary32 "- 8690610"] by (simp add: emin_def)

lemma rc_4: "round_to Binary32 (- 900) = Fin (- 900)"
  using round_to_cert [of "- 900" 9 Binary32 "- 14745600"] by (simp add: emin_def)

lemma rc_5: "round_to Binary32 (- 180) = Fin (- 180)"
  using round_to_cert [of "- 180" 7 Binary32 "- 11796480"] by (simp add: emin_def)

lemma rc_6: "round_to Binary32 (- (3280595427531067 / 35184372088832)) = Fin (- (6110585 / 65536))"
  using round_to_cert [of "- (3280595427531067 / 35184372088832)" 6 Binary32 "- 12221170"] by (simp add: emin_def)

lemma rc_7: "round_to Binary32 (- 90) = Fin (- 90)"
  using round_to_cert [of "- 90" 6 Binary32 "- 11796480"] by (simp add: emin_def)

lemma rc_8: "round_to Binary32 (4722366482869645 / 4722366482869645213696) = Fin (8796093 / 8796093022208)"
  using round_to_cert [of "4722366482869645 / 4722366482869645213696" "- 20" Binary32 8796093] by (simp add: emin_def)

lemma rc_9: "round_to Binary32 (1 / 2) = Fin (1 / 2)"
  using round_to_cert [of "1 / 2" "- 1" Binary32 8388608] by (simp add: emin_def)

lemma rc_10: "round_to Binary32 1 = Fin 1"
  using round_to_cert [of 1 0 Binary32 8388608] by (simp add: emin_def)

lemma rc_11: "round_to Binary32 (13107 / 3980) = Fin (13812749 / 4194304)"
  using round_to_cert [of "13107 / 3980" 1 Binary32 13812749] by (simp add: emin_def)

lemma rc_12: "round_to Binary32 (6283116799757585 / 140737488355328) = Fin (11703217 / 262144)"
  using round_to_cert [of "6283116799757585 / 140737488355328" 5 Binary32 11703217] by (simp add: emin_def)

lemma rc_13: "round_to Binary32 (5685895 / 65536) = Fin (5685895 / 65536)"
  using round_to_cert [of "5685895 / 65536" 6 Binary32 11371790] by (simp add: emin_def)

lemma rc_14: "round_to Binary32 (899999 / 10000) = Fin (11796467 / 131072)"
  using round_to_cert [of "899999 / 10000" 6 Binary32 11796467] by (simp add: emin_def)

lemma rc_15: "round_to Binary32 90 = Fin 90"
  using round_to_cert [of 90 6 Binary32 11796480] by (simp add: emin_def)

lemma rc_16: "round_to Binary32 (791648380794813 / 8796093022208) = Fin 90"
  using round_to_cert [of "791648380794813 / 8796093022208" 6 Binary32 11796480] by (simp add: emin_def)

lemma rc_17: "round_to Binary32 (181 / 2) = Fin (181 / 2)"
  using round_to_cert [of "181 / 2" 6 Binary32 11862016] by (simp add: emin_def)

lemma rc_18: "round_to Binary32 (35296177 / 262144) = Fin (2206011 / 16384)"
  using round_to_cert [of "35296177 / 262144" 7 Binary32 8824044] by (simp add: emin_def)

lemma rc_19: "round_to Binary32 (23592947 / 131072) = Fin (5898237 / 32768)"
  using round_to_cert [of "23592947 / 131072" 7 Binary32 11796474] by (simp add: emin_def)

lemma rc_20: "round_to Binary32 180 = Fin 180"
  using round_to_cert [of 180 7 Binary32 11796480] by (simp add: emin_def)

lemma rc_21: "round_to Binary32 (361 / 2) = Fin (361 / 2)"
  using round_to_cert [of "361 / 2" 7 Binary32 11829248] by (simp add: emin_def)

lemma rc_22: "round_to Binary32 333 = Fin 333"
  using round_to_cert [of 333 8 Binary32 10911744] by (simp add: emin_def)

lemma rc_23: "round_to Binary32 360 = Fin 360"
  using round_to_cert [of 360 8 Binary32 11796480] by (simp add: emin_def)

lemma rc_24: "round_to Binary32 1233 = Fin 1233"
  using round_to_cert [of 1233 10 Binary32 10100736] by (simp add: emin_def)

lemma rc_25: "round_to Binary32 (17031119517 / 4194304) = Fin (16631953 / 4096)"
  using round_to_cert [of "17031119517 / 4194304" 11 Binary32 16631953] by (simp add: emin_def)

lemma rc_26: "round_to Binary32 (16631953 / 4096) = Fin (16631953 / 4096)"
  using round_to_cert [of "16631953 / 4096" 11 Binary32 16631953] by (simp add: emin_def)

lemma rc_27: "round_to Binary32 19000 = Fin 19000"
  using round_to_cert [of 19000 14 Binary32 9728000] by (simp add: emin_def)

lemma rc_28: "round_to Binary32 19900 = Fin 19900"
  using round_to_cert [of 19900 14 Binary32 10188800] by (simp add: emin_def)

lemma rc_29: "round_to Binary32 (68718426275 / 1048576) = Fin 65535"
  using round_to_cert [of "68718426275 / 1048576" 15 Binary32 16776960] by (simp add: emin_def)

lemma rc_30: "round_to Binary32 65535 = Fin 65535"
  using round_to_cert [of 65535 15 Binary32 16776960] by (simp add: emin_def)

lemma rc_31: "round_to Binary32 1000000 = Fin 1000000"
  using round_to_cert [of 1000000 19 Binary32 16000000] by (simp add: emin_def)

lemma rc_32: "round_to Binary32 1000001 = Fin 1000001"
  using round_to_cert [of 1000001 19 Binary32 16000016] by (simp add: emin_def)

lemma rc_33: "round_to Binary32 5965312 = Fin 5965312"
  using round_to_cert [of 5965312 22 Binary32 11930624] by (simp add: emin_def)

lemma rc_34: "round_to Binary32 (536870912 / 45) = Fin 11930465"
  using round_to_cert [of "536870912 / 45" 23 Binary32 11930465] by (simp add: emin_def)

lemma rc_35: "round_to Binary32 11930624 = Fin 11930624"
  using round_to_cert [of 11930624 23 Binary32 11930624] by (simp add: emin_def)

lemma rc_36: "round_to Binary32 (1073741824 / 45) = Fin 23860930"
  using round_to_cert [of "1073741824 / 45" 24 Binary32 11930465] by (simp add: emin_def)

lemma rc_37: "round_to Binary32 (67835371291175 / 65536) = Fin 1035085632"
  using round_to_cert [of "67835371291175 / 65536" 29 Binary32 16173213] by (simp add: emin_def)

lemma rc_38: "round_to Binary32 1065252864 = Fin 1065252864"
  using round_to_cert [of 1065252864 29 Binary32 16644576] by (simp add: emin_def)

lemma rc_39: "round_to Binary32 2147481600 = Fin 2147481600"
  using round_to_cert [of 2147481600 30 Binary32 16777200] by (simp add: emin_def)

lemma rc_40: "round_to Binary32 2147483647 = Fin 2147483648"
  using round_to_cert [of 2147483647 30 Binary32 16777216] by (simp add: emin_def)

lemma rc_41: "round_to Binary32 2147483648 = Fin 2147483648"
  using round_to_cert [of 2147483648 31 Binary32 8388608] by (simp add: emin_def)

lemma rc_42: "round_to Binary32 2147483700 = Fin 2147483648"
  using round_to_cert [of 2147483700 31 Binary32 8388608] by (simp add: emin_def)

lemma rc_43: "round_to Binary32 (4306897865 / 2) = Fin 2153448960"
  using round_to_cert [of "4306897865 / 2" 31 Binary32 8411910] by (simp add: emin_def)

lemma rc_44: "round_to Binary32 2159414165 = Fin 2159414272"
  using round_to_cert [of 2159414165 31 Binary32 8435212] by (simp add: emin_def)

lemma rc_45: "round_to Binary32 (26318737025115 / 8192) = Fin 3212736512"
  using round_to_cert [of "26318737025115 / 8192" 31 Binary32 12549752] by (simp add: emin_def)

lemma rc_46: "round_to Binary32 (70368710090205 / 16384) = Fin 4294965248"
  using round_to_cert [of "70368710090205 / 16384" 31 Binary32 16777208] by (simp add: emin_def)

lemma rc_47: "round_to Binary32 4294967296 = Fin 4294967296"
  using round_to_cert [of 4294967296 32 Binary32 8388608] by (simp add: emin_def)

lemma rc_48: "round_to Binary32 4294967400 = Fin 4294967296"
  using round_to_cert [of 4294967400 32 Binary32 8388608] by (simp add: emin_def)

lemma rc_49: "round_to Binary64 (1 / 1000000) = Fin (4722366482869645 / 4722366482869645213696)"
  using round_to_cert [of "1 / 1000000" "- 20" Binary64 4722366482869645] by (simp add: emin_def)

lemma rc_50: "round_to Binary64 (1 / 2) = Fin (1 / 2)"
  using round_to_cert [of "1 / 2" "- 1" Binary64 4503599627370496] by (simp add: emin_def)

lemma rc_51: "round_to Binary64 (4464423 / 100000) = Fin (6283116799757585 / 140737488355328)"
  using round_to_cert [of "4464423 / 100000" 5 Binary64 6283116799757585] by (simp add: emin_def)

lemma rc_52: "round_to Binary64 90 = Fin 90"
  using round_to_cert [of 90 6 Binary64 6333186975989760] by (simp add: emin_def)

lemma rc_53: "round_to Binary64 (9324013 / 100000) = Fin (3280595427531067 / 35184372088832)"
  using round_to_cert [of "9324013 / 100000" 6 Binary64 6561190855062134] by (simp add: emin_def)

lemma rc_54: "round_to Binary64 (3339 / 10) = Fin (2937015460115251 / 8796093022208)"
  using round_to_cert [of "3339 / 10" 8 Binary64 5874030920230502] by (simp add: emin_def)

lemma rc_55: "round_to Binary64 1000001 = Fin 1000001"
  using round_to_cert [of 1000001 19 Binary64 8589943181934592] by (simp add: emin_def)

lemmas round_certs =
  rc_1 rc_2 rc_3 rc_4 rc_5 rc_6 rc_7 rc_8 rc_9 rc_10 rc_11 rc_12 rc_13 rc_14 rc_15 rc_16
  rc_17 rc_18 rc_19 rc_20 rc_21 rc_22 rc_23 rc_24 rc_25 rc_26 rc_27 rc_28 rc_29 rc_30
  rc_31 rc_32 rc_33 rc_34 rc_35 rc_36 rc_37 rc_38 rc_39 rc_40 rc_41 rc_42 rc_43 rc_44
  rc_45 rc_46 rc_47 rc_48 rc_49 rc_50 rc_51 rc_52 rc_53 rc_54 rc_55

lemma fin_ops:
  "fsub (Fin x) (Fin y) = round_to Binary32 (x - y)"
  "y \<noteq> 0 \<Longrightarrow> fdiv (Fin x) (Fin y) = round_to Binary32 (x / y)"
  by (simp_all add: fsub_def)

lemmas parse_defs = atof_def atoi_def mantissa_def exponent_def numeral_val_def digit_val_def
  isdigit_def isspace_def isxdigit_def tolower_def Let_def

section \<open>Decimal notation\<close>

text \<open>
  On a text in plain decimal notation \<open>atoi\<close> returns the denoted number truncated
  toward zero, and \<open>atof\<close> returns it rounded to double precision.
\<close>

lemma numeral_val_append:
  "numeral_val b (xs @ ys) = numeral_val b xs * b ^ length ys + numeral_val b ys"
proof (induction ys rule: rev_induct)
  case Nil
  then show ?case by (simp add: numeral_val_def)
next
  case (snoc y ys)
  have "numeral_val b ((xs @ ys) @ [y]) = b * numeral_val b (xs @ ys) + digit_val y"
    by (simp add: numeral_val_def)
  also have "\<dots> = b * (numeral_val b xs * b ^ length ys + numeral_val b ys) + digit_val y"
    by (simp only: snoc.IH)
  also have "\<dots> = numeral_val b xs * b ^ length (ys @ [y]) + (b * numeral_val b ys + digit_val y)"
    by (simp add: algebra_simps)
  also have "b * numeral_val b ys + digit_val y = numeral_val b (ys @ [y])"
    by (simp add: numeral_val_def)
  finally show ?case by simp
qed

lemma digit_val_range: "isdigit c \<Longrightarrow> 0 \<le> digit_val c \<and> digit_val c \<le> 9"
proof -
  assume "isdigit c"
  then have "48 \<le> (of_char c :: nat)" "(of_char c :: nat) \<le> 57" by (simp_all add: isdigit_def)
  then have "48 \<le> int (of_char c)" "int (of_char c) \<le> 57" by simp_all
  then have "48 \<le> (of_char c :: int)" "(of_char c :: int) \<le> 57"
    by (simp_all add: of_nat_of_char)
  with \<open>isdigit c\<close> show ?thesis by (simp add: digit_val_def)
qed

lemma numeral_val_range:
  assumes "\<forall>c \<in> set ds. isdigit c"
  shows "0 \<le> numeral_val 10 ds \<and> numeral_val 10 ds < 10 ^ length ds"
  using assms
proof (induction ds rule: rev_induct)
  case Nil
  then show ?case by (simp add: numeral_val_def)
next
  case (snoc d ds)
  then have ih: "0 \<le> numeral_val 10 ds" "numeral_val 10 ds < 10 ^ length ds" by simp_all
  from snoc.prems have d: "0 \<le> digit_val d" "digit_val d \<le> 9"
    using digit_val_range [of d] by simp_all
  have e: "numeral_val 10 (ds @ [d]) = 10 * numeral_val 10 ds + digit_val d"
    by (simp add: numeral_val_def)
  from ih(2) have "numeral_val 10 ds + 1 \<le> 10 ^ length ds" by simp
  then have "10 * numeral_val 10 ds + 10 \<le> 10 * 10 ^ length ds" by simp
  with ih(1) d show ?case by (simp add: e)
qed

lemma decimal_parts:
  assumes "is_decimal s" "sign_split s = (neg, r)"
  obtains ip fp where "mantissa isdigit r = (ip, fp, [])" "takeWhile isdigit r = ip"
    "\<forall>c \<in> set ip. isdigit c" "\<forall>c \<in> set fp. isdigit c" "ip \<noteq> [] \<or> fp \<noteq> []"
    "r = ip \<or> r = ip @ CHR ''.'' # fp"
proof -
  define ip where "ip = takeWhile isdigit r"
  have ipd: "\<forall>c \<in> set ip. isdigit c" by (auto simp: ip_def dest: set_takeWhileD)
  have r: "ip @ dropWhile isdigit r = r" by (simp add: ip_def)
  have t: "takeWhile isdigit r = ip" by (simp add: ip_def)
  show ?thesis
  proof (cases "dropWhile isdigit r")
    case Nil
    then have m: "mantissa isdigit r = (ip, [], [])"
      by (simp only: mantissa_def Let_def list.case ip_def)
    from r [unfolded Nil] have e: "r = ip" by simp
    from assms m have ne: "ip \<noteq> [] \<or> ([]::string) \<noteq> []" by (simp add: is_decimal_def)
    have fpd: "\<forall>c \<in> set ([]::string). isdigit c" by simp
    from e have e': "r = ip \<or> r = ip @ CHR ''.'' # []" by (rule disjI1)
    show ?thesis by (rule that [OF m t ipd fpd ne e'])
  next
    case (Cons c r')
    from assms Cons have c: "c = CHR ''.''" and rest: "dropWhile isdigit r' = []"
      by (auto simp: is_decimal_def mantissa_def Let_def split: if_splits)
    define fp where "fp = takeWhile isdigit r'"
    have fpd: "\<forall>c \<in> set fp. isdigit c" by (auto simp: fp_def dest: set_takeWhileD)
    have "fp @ dropWhile isdigit r' = r'" by (simp add: fp_def)
    then have r': "r' = fp" unfolding rest by simp
    have m: "mantissa isdigit r = (ip, fp, [])"
      using c rest by (simp add: mantissa_def Let_def Cons ip_def fp_def)
    from r [unfolded Cons c r'] have e: "r = ip @ CHR ''.'' # fp" by simp
    from assms m have ne: "ip \<noteq> [] \<or> fp \<noteq> []" by (simp add: is_decimal_def)
    from e have e': "r = ip \<or> r = ip @ CHR ''.'' # fp" by (rule disjI2)
    show ?thesis by (rule that [OF m t ipd fpd ne e'])
  qed
qed

lemma decimal_no_space:
  assumes "is_decimal s"
  shows "dropWhile isspace s = s"
proof -
  obtain neg r where sr: "sign_split s = (neg, r)" by (cases "sign_split s")
  from decimal_parts [OF assms(1) sr] obtain ip fp where
    m: "mantissa isdigit r = (ip, fp, [])" and t: "takeWhile isdigit r = ip"
    and ipd: "\<forall>c \<in> set ip. isdigit c" and fpd: "\<forall>c \<in> set fp. isdigit c"
    and ne: "ip \<noteq> [] \<or> fp \<noteq> []" and r: "r = ip \<or> r = ip @ CHR ''.'' # fp"
    by blast
  show ?thesis
  proof (cases s)
    case Nil
    then show ?thesis by simp
  next
    case (Cons c s')
    have "\<not> isspace c"
    proof
      assume sc: "isspace c"
      then have "c \<noteq> CHR ''-''" "c \<noteq> CHR ''+''" "c \<noteq> CHR ''.''" "\<not> isdigit c"
        by (auto simp: isspace_def isdigit_def)
      with sr Cons have "r = c # s'" by (simp split: if_splits)
      with r \<open>c \<noteq> CHR ''.''\<close> \<open>\<not> isdigit c\<close> ipd ne show False
        by (cases ip) auto
    qed
    with Cons show ?thesis by simp
  qed
qed

lemma trunc_fraction:
  assumes "0 \<le> f" "f < 10 ^ k" and that: "0 \<le> n"
  shows "trunc ((of_int n * 10 ^ k + of_int f) * 10 powi (- int k)) = n"
    and "trunc (- ((of_int n * 10 ^ k + of_int f) * 10 powi (- int k))) = - n"
proof -
  define d :: rat where "d = of_int f / 10 ^ k"
  have d: "0 \<le> d" "d < 1" using assms by (simp_all add: d_def)
  have e: "(of_int n * 10 ^ k + of_int f) * 10 powi (- int k) = of_int n + d"
    by (simp add: d_def power_int_minus field_simps)
  have f: "\<lfloor>of_int n + d\<rfloor> = n" using d by (intro floor_unique) simp_all
  have c: "\<lceil>- (of_int n + d)\<rceil> = - n" using d by (intro ceiling_unique) simp_all
  show "trunc ((of_int n * 10 ^ k + of_int f) * 10 powi (- int k)) = n"
    using that d f by (simp add: e trunc_def)
  show "trunc (- ((of_int n * 10 ^ k + of_int f) * 10 powi (- int k))) = - n"
    using that d f c unfolding e trunc_def by (cases "d = 0 \<and> n = 0") auto
qed

lemma atoi_decimal:
  assumes "is_decimal s"
  shows "atoi s =
     (if - (2 ^ 31) \<le> trunc (decimal_value s) \<and> trunc (decimal_value s) < 2 ^ 31
      then Some (trunc (decimal_value s)) else None)"
proof -
  obtain neg r where sr: "sign_split s = (neg, r)" by (cases "sign_split s")
  from decimal_parts [OF assms(1) sr] obtain ip fp where
    m: "mantissa isdigit r = (ip, fp, [])" and t: "takeWhile isdigit r = ip"
    and ipd: "\<forall>c \<in> set ip. isdigit c" and fpd: "\<forall>c \<in> set fp. isdigit c"
    and ne: "ip \<noteq> [] \<or> fp \<noteq> []" and r: "r = ip \<or> r = ip @ CHR ''.'' # fp"
    by blast
  have sp: "dropWhile isspace s = s" using assms(1) by (rule decimal_no_space)
  have n: "0 \<le> numeral_val 10 ip" using numeral_val_range [OF ipd] by simp
  have f: "0 \<le> numeral_val 10 fp" "numeral_val 10 fp < 10 ^ length fp"
    using numeral_val_range [OF fpd] by simp_all
  have v: "decimal_value s =
      (if neg then - ((of_int (numeral_val 10 ip) * 10 ^ length fp + of_int (numeral_val 10 fp)) *
            10 powi (- int (length fp)))
       else (of_int (numeral_val 10 ip) * 10 ^ length fp + of_int (numeral_val 10 fp)) *
            10 powi (- int (length fp)))"
    by (simp add: decimal_value_def sr m numeral_val_append)
  have tv: "trunc (decimal_value s) = (if neg then - numeral_val 10 ip else numeral_val 10 ip)"
    unfolding v using trunc_fraction [OF f n] by simp
  show ?thesis
    unfolding tv by (simp add: atoi_def sp sr t Let_def)
qed

lemma round_to_uminus: "round_to f (- x) = fneg (round_to f x)"
proof (cases "x = 0")
  case True
  then show ?thesis by (simp add: round_to_def rnd_def not_le)
next
  case False
  then show ?thesis
    by (simp add: round_to_def Let_def rnd_uminus)
qed

lemma nx: "tolower c \<noteq> CHR ''x''" if "isdigit c \<or> c = CHR ''.''" for c
proof -
  have "(65 \<le> (of_char c :: nat) \<and> (of_char c :: nat) \<le> 90) = False"
  proof (cases "isdigit c")
    case True
    then show ?thesis by (simp add: isdigit_def)
  next
    case False
    with that have "c = CHR ''.''" by simp
    then show ?thesis by simp
  qed
  then have "tolower c = c" by (simp only: tolower_def if_False)
  moreover have "c \<noteq> CHR ''x''"
  proof
    assume "c = CHR ''x''"
    with that show False by (simp add: isdigit_def)
  qed
  ultimately show ?thesis by simp
qed

lemma decimal_not_hex:
  assumes "\<forall>c \<in> set r. isdigit c \<or> c = CHR ''.''"
  shows "take 2 (map tolower r) \<noteq> ''0x''"
proof
  assume a: "take 2 (map tolower r) = ''0x''"
  have "CHR ''x'' \<in> set (take 2 (map tolower r))" unfolding a by simp
  then have "CHR ''x'' \<in> set (map tolower r)" by (rule in_set_takeD)
  then obtain c where "c \<in> set r" "tolower c = CHR ''x''" by auto
  with assms nx [of c] show False by auto
qed

lemma atof_decimal:
  assumes "is_decimal s"
  shows "atof s = round_to Binary64 (decimal_value s)"
proof -
  obtain neg r where sr: "sign_split s = (neg, r)" by (cases "sign_split s")
  from decimal_parts [OF assms(1) sr] obtain ip fp where
    m: "mantissa isdigit r = (ip, fp, [])" and t: "takeWhile isdigit r = ip"
    and ipd: "\<forall>c \<in> set ip. isdigit c" and fpd: "\<forall>c \<in> set fp. isdigit c"
    and ne: "ip \<noteq> [] \<or> fp \<noteq> []" and r: "r = ip \<or> r = ip @ CHR ''.'' # fp"
    by blast
  have sp: "dropWhile isspace s = s" using assms by (rule decimal_no_space)
  have ch: "\<forall>c \<in> set r. isdigit c \<or> c = CHR ''.''" using r ipd fpd by auto
  have hx: "(take 2 (map tolower r) = ''0x'') = False" using decimal_not_hex [OF ch] by simp
  have ex: "exponent CHR ''e'' [] = 0" by (simp add: exponent_def)
  have d: "(ip \<noteq> [] \<or> fp \<noteq> []) = True" using ne by simp
  have v: "decimal_value s =
      (if neg then - (of_int (numeral_val 10 (ip @ fp)) * 10 powi (- int (length fp)))
       else of_int (numeral_val 10 (ip @ fp)) * 10 powi (- int (length fp)))"
    by (simp add: decimal_value_def sr m)
  have "atof s =
      (if neg then fneg (round_to Binary64 (of_int (numeral_val 10 (ip @ fp)) * 10 powi (0 - int (length fp))))
       else round_to Binary64 (of_int (numeral_val 10 (ip @ fp)) * 10 powi (0 - int (length fp))))"
    unfolding atof_def sp sr Let_def prod.case m hx ex d
    by (simp only: case_prod_unfold simp_thms if_True if_False)
  then show ?thesis unfolding v by (simp add: round_to_uminus)
qed

section \<open>Properties of the unit mapper\<close>

lemma mapValue_affine:
  "mapValue val inStart inEnd outStart outEnd = f2i32 (affine val inStart inEnd outStart outEnd)"
  by (simp add: mapValue_def affine_def)

lemma trunc_mono: "x \<le> y \<Longrightarrow> trunc x \<le> trunc y"
proof -
  assume xy: "x \<le> y"
  consider "0 \<le> x" | "x < 0" "0 \<le> y" | "y < 0" by linarith
  then show ?thesis
  proof cases
    case 1
    then show ?thesis using xy by (simp add: trunc_def floor_mono)
  next
    case 2
    then have a: "\<lceil>x\<rceil> \<le> 0" and b: "0 \<le> \<lfloor>y\<rfloor>" by (simp_all add: ceiling_le_zero)
    from a b have "\<lceil>x\<rceil> \<le> \<lfloor>y\<rfloor>" by (rule order_trans)
    with 2 show ?thesis by (simp add: trunc_def)
  next
    case 3
    then show ?thesis using xy by (simp add: trunc_def ceiling_mono)
  qed
qed

lemma trunc_of_int [simp]: "trunc (of_int n) = n"
  by (simp add: trunc_def)

lemma alt_affine:
  assumes "- 900 \<le> a" "a \<le> b" "b \<le> 19000"
  shows "\<exists>u v. affine (i2f a) (i2f (- 900)) (i2f 19000) (i2f 0) (i2f 65535) = Fin u \<and>
               affine (i2f b) (i2f (- 900)) (i2f 19000) (i2f 0) (i2f 65535) = Fin v \<and>
               0 \<le> u \<and> u \<le> v \<and> v \<le> 65535"
proof -
  have c1: "round_to Binary32 (- 900) = Fin (- 900)" "round_to Binary32 19000 = Fin 19000"
    by (simp_all add: round_certs)
  have r1: "(- 900 :: rat) \<le> of_int a" "(of_int a :: rat) \<le> of_int b" "(of_int b :: rat) \<le> 19000"
    using assms by simp_all
  from round_to_between [OF c1 r1]
  obtain u1 v1 where s1: "i2f a = Fin u1" "i2f b = Fin v1" "- 900 \<le> u1" "u1 \<le> v1" "v1 \<le> 19000"
    unfolding i2f_def by blast
  have c2: "round_to Binary32 0 = Fin 0" "round_to Binary32 19900 = Fin 19900"
    by (simp_all add: round_certs)
  have r2: "(0 :: rat) \<le> u1 + 900" "u1 + 900 \<le> v1 + 900" "v1 + 900 \<le> 19900"
    using s1 by simp_all
  from round_to_between [OF c2 r2]
  obtain u2 v2 where s2: "round_to Binary32 (u1 + 900) = Fin u2"
      "round_to Binary32 (v1 + 900) = Fin v2" "0 \<le> u2" "u2 \<le> v2" "v2 \<le> 19900"
    by blast
  have c3: "round_to Binary32 (13812749 / 4194304 * 0) = Fin 0"
      "round_to Binary32 (13812749 / 4194304 * 19900) = Fin 65535"
    by (simp_all add: round_certs)
  have r3: "(13812749 / 4194304 * 0 :: rat) \<le> 13812749 / 4194304 * u2"
      "(13812749 / 4194304 * u2 :: rat) \<le> 13812749 / 4194304 * v2"
      "(13812749 / 4194304 * v2 :: rat) \<le> 13812749 / 4194304 * 19900"
    using s2 by simp_all
  from round_to_between [OF c3 r3]
  obtain u3 v3 where s3: "round_to Binary32 (13812749 / 4194304 * u2) = Fin u3"
      "round_to Binary32 (13812749 / 4194304 * v2) = Fin v3" "0 \<le> u3" "u3 \<le> v3" "v3 \<le> 65535"
    by blast
  have c4: "round_to Binary32 (0 + 0) = Fin 0" "round_to Binary32 (0 + 65535) = Fin 65535"
    by (simp_all add: round_certs)
  have r4: "(0 + 0 :: rat) \<le> 0 + u3" "(0 + u3 :: rat) \<le> 0 + v3" "(0 + v3 :: rat) \<le> 0 + 65535"
    using s3 by simp_all
  from round_to_between [OF c4 r4]
  obtain u4 v4 where s4: "round_to Binary32 (0 + u3) = Fin u4" "round_to Binary32 (0 + v3) = Fin v4"
      "0 \<le> u4" "u4 \<le> v4" "v4 \<le> 65535"
    by blast
  have k: "fdiv (fsub (i2f 65535) (Fin 0)) (fsub (i2f 19000) (Fin (- 900))) = Fin (13812749 / 4194304)"
    by (simp add: i2f_def fin_ops round_certs)
  have m: "i2f (- 900) = Fin (- 900)" "i2f 0 = Fin 0" by (simp_all add: i2f_def round_certs)
  have f: "fsub (Fin u1) (Fin (- 900)) = round_to Binary32 (u1 + 900)"
      "fsub (Fin v1) (Fin (- 900)) = round_to Binary32 (v1 + 900)"
    by (simp_all add: fin_ops)
  have "affine (i2f a) (i2f (- 900)) (i2f 19000) (i2f 0) (i2f 65535) = Fin u4"
    by (simp only: affine_def m k s1 f s2 fmul.simps s3 fadd.simps s4)
  moreover have "affine (i2f b) (i2f (- 900)) (i2f 19000) (i2f 0) (i2f 65535) = Fin v4"
    by (simp only: affine_def m k s1 f s2 fmul.simps s3 fadd.simps s4)
  ultimately show ?thesis using s4 by blast
qed

lemma f2i32_Some:
  assumes "f2i32 v = Some x"
  shows "\<exists>r. v = Fin r \<and> sint x = trunc r"
proof (cases v)
  case (Fin r)
  with assms have t: "- (2 ^ 31) \<le> trunc r" "trunc r < 2 ^ 31" and x: "x = word_of_int (trunc r)"
    by (auto simp: Let_def split: if_splits)
  have "sint x = signed_take_bit 31 (trunc r)" by (simp add: x sint_sbintrunc')
  also have "\<dots> = trunc r" using t by (intro signed_take_bit_int_eq_self) simp_all
  finally show ?thesis using Fin by simp
qed (use assms in simp_all)

lemma lat_affine:
  assumes h: "round_to Binary32 hi = Fin h1" "round_to Binary32 (h1 + 90) = Fin h2"
      "round_to Binary32 (23860930 * h2) = Fin h3"
      "round_to Binary32 (- 2147483648 + h3) = Fin h4"
    and uv: "- 90 \<le> u" "u \<le> v" "v \<le> hi"
  shows "\<exists>r1 r2.
     affine (d2f (Fin u)) (d2f (Fin (- 90))) (d2f (Fin 90))
       (d2f (Fin (- 2147483647))) (d2f (Fin 2147483647)) = Fin r1 \<and>
     affine (d2f (Fin v)) (d2f (Fin (- 90))) (d2f (Fin 90))
       (d2f (Fin (- 2147483647))) (d2f (Fin 2147483647)) = Fin r2 \<and>
     - 2147483648 \<le> r1 \<and> r1 \<le> r2 \<and> r2 \<le> h4"
proof -
  have c1: "round_to Binary32 (- 90) = Fin (- 90)" by (simp add: round_certs)
  from round_to_between [OF c1 h(1) uv]
  obtain u1 v1 where s1: "d2f (Fin u) = Fin u1" "d2f (Fin v) = Fin v1"
      "- 90 \<le> u1" "u1 \<le> v1" "v1 \<le> h1"
    by auto
  have c2: "round_to Binary32 (- 90 + 90) = Fin 0" by simp
  have r2: "(- 90 + 90 :: rat) \<le> u1 + 90" "u1 + 90 \<le> v1 + 90" "v1 + 90 \<le> h1 + 90"
    using s1 by simp_all
  from round_to_between [OF c2 h(2) r2]
  obtain u2 v2 where s2: "round_to Binary32 (u1 + 90) = Fin u2"
      "round_to Binary32 (v1 + 90) = Fin v2" "0 \<le> u2" "u2 \<le> v2" "v2 \<le> h2"
    by blast
  have c3: "round_to Binary32 (23860930 * 0) = Fin 0" by simp
  have r3: "(23860930 * 0 :: rat) \<le> 23860930 * u2" "(23860930 * u2 :: rat) \<le> 23860930 * v2"
      "(23860930 * v2 :: rat) \<le> 23860930 * h2"
    using s2 by simp_all
  from round_to_between [OF c3 h(3) r3]
  obtain u3 v3 where s3: "round_to Binary32 (23860930 * u2) = Fin u3"
      "round_to Binary32 (23860930 * v2) = Fin v3" "0 \<le> u3" "u3 \<le> v3" "v3 \<le> h3"
    by blast
  have c4: "round_to Binary32 (- 2147483648 + 0) = Fin (- 2147483648)"
    by (simp add: round_certs)
  have r4: "(- 2147483648 + 0 :: rat) \<le> - 2147483648 + u3"
      "(- 2147483648 + u3 :: rat) \<le> - 2147483648 + v3"
      "(- 2147483648 + v3 :: rat) \<le> - 2147483648 + h3"
    using s3 by simp_all
  from round_to_between [OF c4 h(4) r4]
  obtain u4 v4 where s4: "round_to Binary32 (- 2147483648 + u3) = Fin u4"
      "round_to Binary32 (- 2147483648 + v3) = Fin v4"
      "- 2147483648 \<le> u4" "u4 \<le> v4" "v4 \<le> h4"
    by blast
  have m: "d2f (Fin (- 90)) = Fin (- 90)" "d2f (Fin 90) = Fin 90"
      "d2f (Fin (- 2147483647)) = Fin (- 2147483648)" "d2f (Fin 2147483647) = Fin 2147483648"
    by (simp_all add: round_certs)
  have k: "fdiv (fsub (Fin 2147483648) (Fin (- 2147483648))) (fsub (Fin 90) (Fin (- 90))) =
      Fin 23860930"
    by (simp add: fin_ops round_certs)
  have f: "fsub (Fin u1) (Fin (- 90)) = round_to Binary32 (u1 + 90)"
      "fsub (Fin v1) (Fin (- 90)) = round_to Binary32 (v1 + 90)"
    by (simp_all add: fin_ops)
  have "affine (d2f (Fin u)) (d2f (Fin (- 90))) (d2f (Fin 90))
       (d2f (Fin (- 2147483647))) (d2f (Fin 2147483647)) = Fin u4"
    by (simp only: affine_def m k s1 f s2 fmul.simps s3 fadd.simps s4)
  moreover have "affine (d2f (Fin v)) (d2f (Fin (- 90))) (d2f (Fin 90))
       (d2f (Fin (- 2147483647))) (d2f (Fin 2147483647)) = Fin v4"
    by (simp only: affine_def m k s1 f s2 fmul.simps s3 fadd.simps s4)
  ultimately show ?thesis using s4 by blast
qed

lemma lat_affine_90:
  assumes "- 90 \<le> u" "u \<le> v" "v \<le> 90"
  shows "\<exists>r1 r2.
     affine (d2f (Fin u)) (d2f (Fin (- 90))) (d2f (Fin 90))
       (d2f (Fin (- 2147483647))) (d2f (Fin 2147483647)) = Fin r1 \<and>
     affine (d2f (Fin v)) (d2f (Fin (- 90))) (d2f (Fin 90))
       (d2f (Fin (- 2147483647))) (d2f (Fin 2147483647)) = Fin r2 \<and>
     - 2147483648 \<le> r1 \<and> r1 \<le> r2 \<and> r2 \<le> 2147483648"
  by (rule lat_affine [OF _ _ _ _ assms, of 90 180 4294967296]) (simp_all add: round_certs)

lemma lat_affine_defined:
  assumes "- 90 \<le> u" "u \<le> v" "v \<le> 899999 / 10000"
  shows "\<exists>r1 r2.
     affine (d2f (Fin u)) (d2f (Fin (- 90))) (d2f (Fin 90))
       (d2f (Fin (- 2147483647))) (d2f (Fin 2147483647)) = Fin r1 \<and>
     affine (d2f (Fin v)) (d2f (Fin (- 90))) (d2f (Fin 90))
       (d2f (Fin (- 2147483647))) (d2f (Fin 2147483647)) = Fin r2 \<and>
     - 2147483648 \<le> r1 \<and> r1 \<le> r2 \<and> r2 \<le> 2147481600"
  by (rule lat_affine [OF _ _ _ _ assms, of "11796467 / 131072" "5898237 / 32768" 4294965248])
     (simp_all add: round_certs)

lemma atoi_fraction: "atoi (i @ CHR ''.'' # f) = atoi i"
proof -
  have d: "dropWhile isspace (i @ CHR ''.'' # f) = dropWhile isspace i @ CHR ''.'' # f"
    by (simp add: dropWhile_append isspace_def)
  have t: "takeWhile isdigit (r @ CHR ''.'' # f) = takeWhile isdigit r" for r
    by (rule takeWhile_tail) (simp add: isdigit_def)
  have "takeWhile isdigit (snd (sign_split (r @ CHR ''.'' # f))) = takeWhile isdigit (snd (sign_split r))
      \<and> fst (sign_split (r @ CHR ''.'' # f)) = fst (sign_split r)" for r
    by (cases r) (simp_all add: t isdigit_def)
  then show ?thesis
    by (simp add: atoi_def d case_prod_unfold Let_def)
qed

lemma atof_examples:
  "atof ''-90'' = Fin (- 90)" "atof ''90'' = Fin 90" "atof ''0'' = Fin 0"
  "atof ''0.5'' = Fin (1 / 2)"
  "atof ''0.000001'' = Fin (4722366482869645 / 4722366482869645213696)"
  by (simp_all add: parse_defs round_certs)

lemmas map_eval = mapLatitude_def mapLongitude_def mapAltitude_def mapValue_def fin_ops
  round_certs i2f_def trunc_def

lemma mapLatitude_examples:
  "mapLatitude ''-90'' = Some (- 2147483648)"
  "mapLatitude ''90'' = None"
  "mapLatitude ''0'' = Some 0"
  "mapLatitude ''0.000001'' = Some 0"
  "mapLatitude ''0.5'' = Some 11930624"
  by (simp_all add: atof_examples map_eval)

lemma mapAltitude_examples:
  "mapAltitude ''-900'' = Some 0"
  "mapAltitude ''19000'' = Some 65535"
  "mapAltitude ''333'' = Some 4060"
  by (simp_all add: parse_defs map_eval)

text \<open>
  C4 (amended): for inputs \<open>u \<le> v\<close> in [-90, 90] on which the conversion to a 32-bit integer
  is defined, \<open>mapLatitude\<close> is monotonic: the code of \<open>u\<close> is at most the code of \<open>v\<close>.
  The conversion is defined for every input up to 89.9999.
\<close>

theorem mapLatitude_monotone:
  assumes "atof s = Fin u" "atof t = Fin v" "- 90 \<le> u" "u \<le> v" "v \<le> 90"
  shows "(mapLatitude s = Some x \<and> mapLatitude t = Some y \<longrightarrow> sint x \<le> sint y) \<and>
         (v \<le> 899999 / 10000 \<longrightarrow> mapLatitude s \<noteq> None \<and> mapLatitude t \<noteq> None)"
proof (rule conjI; rule impI)
  assume d: "mapLatitude s = Some x \<and> mapLatitude t = Some y"
  from lat_affine_90 [OF assms(3-5)] obtain r1 r2 where
    a: "affine (d2f (Fin u)) (d2f (Fin (- 90))) (d2f (Fin 90))
          (d2f (Fin (- 2147483647))) (d2f (Fin 2147483647)) = Fin r1"
       "affine (d2f (Fin v)) (d2f (Fin (- 90))) (d2f (Fin 90))
          (d2f (Fin (- 2147483647))) (d2f (Fin 2147483647)) = Fin r2"
    and r: "r1 \<le> r2"
    by blast
  from assms(1) d a(1) have fx: "f2i32 (Fin r1) = Some x"
    by (simp add: mapLatitude_def mapValue_affine)
  from f2i32_Some [OF fx] have x: "sint x = trunc r1" by simp
  from assms(2) d a(2) have fy: "f2i32 (Fin r2) = Some y"
    by (simp add: mapLatitude_def mapValue_affine)
  from f2i32_Some [OF fy] have y: "sint y = trunc r2" by simp
  from r show "sint x \<le> sint y" by (simp add: x y trunc_mono)
next
  assume "v \<le> 899999 / 10000"
  from lat_affine_defined [OF assms(3,4) this] obtain r1 r2 where
    a: "affine (d2f (Fin u)) (d2f (Fin (- 90))) (d2f (Fin 90))
          (d2f (Fin (- 2147483647))) (d2f (Fin 2147483647)) = Fin r1"
       "affine (d2f (Fin v)) (d2f (Fin (- 90))) (d2f (Fin 90))
          (d2f (Fin (- 2147483647))) (d2f (Fin 2147483647)) = Fin r2"
    and r: "- 2147483648 \<le> r1" "r1 \<le> r2" "r2 \<le> 2147481600"
    by blast
  have t: "- 2147483648 \<le> trunc r1" "trunc r1 \<le> trunc r2" "trunc r2 \<le> 2147481600"
    using trunc_mono [OF r(1)] trunc_mono [OF r(2)] trunc_mono [OF r(3)]
      trunc_of_int [of "- 2147483648"] trunc_of_int [of 2147481600]
    by simp_all
  then show "mapLatitude s \<noteq> None \<and> mapLatitude t \<noteq> None"
    using assms(1,2) a by (simp add: mapLatitude_def mapValue_affine Let_def)
qed

theorem mapLatitude_monotone_witness:
  "atof ''-90'' = Fin (- 90) \<and> atof ''0.5'' = Fin (1 / 2) \<and> (- 90 :: rat) \<le> - 90 \<and>
   (- 90 :: rat) \<le> 1 / 2 \<and> (1 / 2 :: rat) \<le> 90 \<and> (1 / 2 :: rat) \<le> 899999 / 10000 \<and>
   mapLatitude ''-90'' = Some (- 2147483648) \<and> mapLatitude ''0.5'' = Some 11930624 \<and>
   sint (- 2147483648 :: u32) \<le> sint (11930624 :: u32) \<and>
   mapLatitude ''-90'' \<noteq> None \<and> mapLatitude ''0.5'' \<noteq> None"
proof -
  have h: "(- 90 :: rat) \<le> - 90" "(- 90 :: rat) \<le> 1 / 2" "(1 / 2 :: rat) \<le> 90" by simp_all
  have b: "(1 / 2 :: rat) \<le> 899999 / 10000" by simp
  note t = mapLatitude_monotone [OF atof_examples(1) atof_examples(4) h,
      of "- 2147483648" 11930624]
  from t mapLatitude_examples(1,5)
  have m: "sint (- 2147483648 :: u32) \<le> sint (11930624 :: u32)" by blast
  from t b have d: "mapLatitude ''-90'' \<noteq> None \<and> mapLatitude ''0.5'' \<noteq> None" by blast
  from h b m d show ?thesis
    by (simp only: atof_examples mapLatitude_examples simp_thms)
qed

text \<open>
  The claim C4 as stated fails on the code.  The inputs 0 and 0.000001 are both in
  [-90, 90] and differ, but receive the same code, so the mapping is not strictly
  monotonic; and the input -90 receives the code -2147483648.
\<close>

theorem mapLatitude_counterexample:
  "atof ''0'' = Fin 0 \<and>
   atof ''0.000001'' = Fin (4722366482869645 / 4722366482869645213696) \<and>
   (0 :: rat) < 4722366482869645 / 4722366482869645213696 \<and>
   mapLatitude ''0'' = mapLatitude ''0.000001'' \<and>
   atof ''-90'' = Fin (- 90) \<and>
   map_option sint (mapLatitude ''-90'') = Some (- 2147483648)"
  by (simp add: atof_examples mapLatitude_examples)

lemma mapLongitude_examples:
  "mapLongitude ''0'' = Some 0"
  "mapLongitude ''0.5'' = Some 5965312"
  by (simp_all add: parse_defs map_eval)

lemma mapAltitude_fraction: "mapAltitude (i @ CHR ''.'' # f) = mapAltitude i"
  by (simp add: mapAltitude_def atoi_fraction)

lemma decimal_examples:
  "is_decimal ''333''" "decimal_value ''333'' = 333"
  "is_decimal ''333.9''" "decimal_value ''333.9'' = 3339 / 10"
  "is_decimal ''19000''" "decimal_value ''19000'' = 19000"
  by (simp_all add: is_decimal_def decimal_value_def parse_defs)

text \<open>
  C5: for every input in decimal notation that denotes a number in [-900, 19000],
  \<open>mapAltitude\<close> is monotonic in that number, maps -900 to 0 and 19000 to 65535, and its
  result is the single-precision affine value truncated toward zero, which lies in
  0..65535 and so fits in 16 unsigned bits.
\<close>

theorem mapAltitude_range:
  assumes "is_decimal s" "is_decimal t"
    and "- 900 \<le> decimal_value s" "decimal_value s \<le> decimal_value t"
      "decimal_value t \<le> 19000"
  shows "mapAltitude ''-900'' = Some 0 \<and> mapAltitude ''19000'' = Some 65535 \<and>
    (\<exists>r x y. affine (i2f (trunc (decimal_value s))) (i2f (- 900)) (i2f 19000) (i2f 0)
                 (i2f 65535) = Fin r \<and>
       0 \<le> trunc r \<and> trunc r \<le> 65535 \<and>
       mapAltitude s = Some x \<and> uint x = trunc r \<and>
       mapAltitude t = Some y \<and> x \<le> y)"
proof -
  define a where "a = trunc (decimal_value s)"
  define b where "b = trunc (decimal_value t)"
  have ab: "- 900 \<le> a" "a \<le> b" "b \<le> 19000"
    using trunc_mono [OF assms(3)] trunc_mono [OF assms(4)] trunc_mono [OF assms(5)]
      trunc_of_int [of "- 900"] trunc_of_int [of 19000]
    by (simp_all add: a_def b_def)
  have sa: "atoi s = Some a" and tb: "atoi t = Some b"
    using ab by (simp_all add: atoi_decimal [OF assms(1)] atoi_decimal [OF assms(2)] a_def b_def)
  from alt_affine [OF ab] obtain u v where
    a: "affine (i2f a) (i2f (- 900)) (i2f 19000) (i2f 0) (i2f 65535) = Fin u"
       "affine (i2f b) (i2f (- 900)) (i2f 19000) (i2f 0) (i2f 65535) = Fin v"
    and r: "0 \<le> u" "u \<le> v" "v \<le> 65535"
    by blast
  have tu: "0 \<le> trunc u" "trunc u \<le> trunc v" "trunc v \<le> 65535"
    using r trunc_mono [of 0 u] trunc_mono [of u v] trunc_mono [of v 65535]
    by (simp_all add: trunc_def)
  define x :: u16 where "x = ucast (word_of_int (trunc u) :: u32)"
  define y :: u16 where "y = ucast (word_of_int (trunc v) :: u32)"
  have mx: "mapAltitude s = Some x"
    using sa a(1) tu by (simp add: mapAltitude_def mapValue_affine x_def Let_def)
  have my: "mapAltitude t = Some y"
    using tb a(2) tu by (simp add: mapAltitude_def mapValue_affine y_def Let_def)
  have ux: "uint x = trunc u"
    using tu by (simp add: x_def uint_word_of_int unsigned_ucast_eq take_bit_eq_mod)
  have uy: "uint y = trunc v"
    using tu by (simp add: y_def uint_word_of_int unsigned_ucast_eq take_bit_eq_mod)
  have "x \<le> y" using tu ux uy by (simp add: word_le_def)
  with a(1) tu mx my ux show ?thesis
    unfolding a_def by (auto simp: mapAltitude_examples)
qed

theorem mapAltitude_range_witness:
  "is_decimal ''333.9'' \<and> is_decimal ''19000'' \<and>
   (- 900 :: rat) \<le> decimal_value ''333.9'' \<and>
   decimal_value ''333.9'' \<le> decimal_value ''19000'' \<and>
   decimal_value ''19000'' \<le> 19000 \<and>
   mapAltitude ''-900'' = Some 0 \<and> mapAltitude ''19000'' = Some 65535 \<and>
   mapAltitude ''333.9'' = Some 4060 \<and> (4060 :: u16) \<le> 65535"
proof -
  have h: "(- 900 :: rat) \<le> decimal_value ''333.9''"
    "decimal_value ''333.9'' \<le> decimal_value ''19000''"
    "decimal_value ''19000'' \<le> 19000"
    by (simp_all add: decimal_examples)
  have e: "mapAltitude ''333.9'' = Some 4060"
    using mapAltitude_fraction [of "''333''" "''9''"] by (simp add: mapAltitude_examples)
  from mapAltitude_range [OF decimal_examples(3) decimal_examples(5) h] obtain x y where
    "mapAltitude ''333.9'' = Some x" "mapAltitude ''19000'' = Some y" "x \<le> y"
    by blast
  then have "(4060 :: u16) \<le> 65535" by (simp add: e mapAltitude_examples)
  with h e show ?thesis by (simp only: decimal_examples mapAltitude_examples simp_thms)
qed

text \<open>
  C10: \<open>mapAltitude\<close> reads its input with \<open>atoi\<close>, which stops at the decimal point: two
  inputs in decimal notation that denote numbers with the same integer part receive the
  same code, whatever their fraction digits are.  \<open>mapLatitude\<close> and \<open>mapLongitude\<close> read
  their input with \<open>atof\<close>, which returns the denoted number rounded to double precision,
  and the fraction changes their code.
\<close>

theorem mapAltitude_discards_fraction:
  assumes "is_decimal s" "is_decimal t"
    and "trunc (decimal_value s) = trunc (decimal_value t)"
  shows "mapAltitude s = mapAltitude t \<and>
    atoi s = atoi t \<and>
    atof s = round_to Binary64 (decimal_value s) \<and>
    mapLatitude ''0.5'' \<noteq> mapLatitude ''0'' \<and>
    mapLongitude ''0.5'' \<noteq> mapLongitude ''0''"
proof -
  have "atoi s = atoi t"
    by (simp add: atoi_decimal [OF assms(1)] atoi_decimal [OF assms(2)] assms(3))
  then show ?thesis
    by (simp add: mapAltitude_def atof_decimal [OF assms(1)] mapLatitude_examples
        mapLongitude_examples)
qed

theorem mapAltitude_discards_fraction_witness:
  "is_decimal ''333'' \<and> is_decimal ''333.9'' \<and>
   trunc (decimal_value ''333'') = trunc (decimal_value ''333.9'') \<and>
   mapAltitude ''333'' = mapAltitude ''333.9'' \<and>
   atof ''333.9'' = Fin (2937015460115251 / 8796093022208)"
proof -
  have h: "trunc (decimal_value ''333'') = trunc (decimal_value ''333.9'')"
    by (simp add: decimal_examples trunc_def)
  note t = mapAltitude_discards_fraction [OF decimal_examples(1) decimal_examples(3) h]
  from t have a: "mapAltitude ''333'' = mapAltitude ''333.9''" by blast
  from mapAltitude_discards_fraction [OF decimal_examples(3) decimal_examples(1) h [symmetric]]
  have "atof ''333.9'' = round_to Binary64 (decimal_value ''333.9'')" by blast
  then have b: "atof ''333.9'' = Fin (2937015460115251 / 8796093022208)"
    by (simp add: decimal_examples round_certs)
  from h a b show ?thesis by (simp only: decimal_examples simp_thms)
qed

section \<open>Properties of the clock source\<close>

text \<open>
  C6 fails on the code.  The Linux branch converts a \<open>tv_sec\<close> of -1 (one second before
  the epoch) to unsigned and returns a value just below \<open>2 ^ 64\<close> instead of 0; the macOS
  branch computes \<open>((tv_sec * 10) XOR 9) + tv_nsec\<close>, which is not a count of microseconds;
  only the Windows branch clamps a time before the epoch to 0.
\<close>

theorem updateTimestamp_not_clamped:
  "updateTimestamp (TimeSpec (- 1) 0) = 18446744073708551616 \<and>
   updateTimestamp (MachTimeSpec 1700000000 0) = 17000000009 \<and>
   updateTimestamp (FileTime (epoch_filetime - 10000000)) = 0"
  by (simp add: epoch_filetime_def)

section \<open>Properties of the command line\<close>

lemma handle_option_printf: "\<forall>ev \<in> set (fst (handle_option e s opt)). is_printf ev"
  by (cases opt) (simp add: handle_option_def is_printf_def Let_def)

lemma handle_option_rejects:
  assumes "out_of_range opt"
  shows "snd (handle_option e s opt) = None \<and>
         Printf (diagnostic (fst opt)) \<in> set (fst (handle_option e s opt))"
proof -
  obtain c arg where opt: "opt = (c, arg)" by (cases opt)
  from assms consider
      (r) "c = CHR ''r''" "flt (i2f 1000000) (d2f (atof arg))"
    | (t) "c = CHR ''t''" "flt (atof arg) (Fin (- 90)) \<or> flt (Fin 90) (atof arg)"
    | (g) "c = CHR ''g''" "flt (atof arg) (Fin (- 180)) \<or> flt (Fin 180) (atof arg)"
    | (e) "c = CHR ''e''" "flt (atof arg) (Fin (- 900)) \<or> flt (Fin 19000) (atof arg)"
    unfolding out_of_range_def opt by auto
  then show ?thesis
  proof cases
    case r
    then show ?thesis by (simp add: opt handle_option_def diagnostic_def Let_def)
  next
    case t
    then show ?thesis by (simp add: opt handle_option_def diagnostic_def Let_def)
  next
    case g
    then show ?thesis by (simp add: opt handle_option_def diagnostic_def Let_def)
  next
    case e
    then show ?thesis by (simp add: opt handle_option_def diagnostic_def Let_def)
  qed
qed

lemma parse_options_events:
  "\<forall>ev \<in> set (fst (parse_options e s opts)). is_printf ev \<or> ev = Exit 0"
proof (induction opts arbitrary: s)
  case Nil
  then show ?case by simp
next
  case (Cons opt opts)
  obtain out r where h: "handle_option e s opt = (out, r)" by (cases "handle_option e s opt")
  have p: "\<forall>ev \<in> set out. is_printf ev" using handle_option_printf [of e s opt] h by simp
  show ?case
  proof (cases r)
    case None
    with h p show ?thesis by auto
  next
    case (Some s')
    obtain out' r' where t: "parse_options e s' opts = (out', r')"
      by (cases "parse_options e s' opts")
    with Cons.IH [of s'] have "\<forall>ev \<in> set out'. is_printf ev \<or> ev = Exit 0" by simp
    with h p Some t show ?thesis by auto
  qed
qed

lemma parse_options_exit:
  assumes "opt \<in> set opts" "out_of_range opt"
  shows "snd (parse_options e s opts) = None \<and> fst (parse_options e s opts) \<noteq> [] \<and>
         last (fst (parse_options e s opts)) = Exit 0"
  using assms(1)
proof (induction opts arbitrary: s)
  case Nil
  then show ?case by simp
next
  case (Cons o' opts)
  obtain out r where h: "handle_option e s o' = (out, r)" by (cases "handle_option e s o'")
  show ?case
  proof (cases r)
    case None
    with h show ?thesis by simp
  next
    case (Some s')
    have "o' \<noteq> opt" using handle_option_rejects [OF assms(2), of e s] h Some by auto
    with Cons.prems have "opt \<in> set opts" by simp
    from Cons.IH [OF this, of s'] obtain out' where
      t: "parse_options e s' opts = (out', None)" "out' \<noteq> []" "last out' = Exit 0"
      by (cases "parse_options e s' opts") auto
    with h Some show ?thesis by simp
  qed
qed

text \<open>
  C7 (amended): a rate whose single-precision value exceeds 1,000,000, a latitude outside
  [-90, 90], a longitude outside [-180, 180] or an altitude outside [-900, 19000] on the
  command line makes the program print the diagnostic of that option and exit with
  status 0 before the socket is created and before any packet is sent.
\<close>

theorem out_of_range_exits:
  assumes "opt \<in> set opts" "out_of_range opt"
  shows "(let tr = main e clk opts sock_ok clks
          in Socket \<notin> set tr \<and> (\<forall>p. SendTo p \<notin> set tr) \<and> last tr = Exit 0) \<and>
         snd (handle_option e s opt) = None \<and>
         Printf (diagnostic (fst opt)) \<in> set (fst (handle_option e s opt))"
proof -
  obtain out r where p: "parse_options e (defaults e clk) opts = (out, r)"
    by (cases "parse_options e (defaults e clk) opts")
  from parse_options_exit [OF assms, of e "defaults e clk"] p
  have r: "r = None" "out \<noteq> []" "last out = Exit 0" by simp_all
  from parse_options_events [of e "defaults e clk" opts] p
  have ev: "\<forall>ev \<in> set out. is_printf ev \<or> ev = Exit 0" by simp
  have m: "main e clk opts sock_ok clks = Printf ''UDP Generator, Version 1.0.1'' # out"
    by (simp add: main_def p r)
  have "Socket \<notin> set out" "\<And>p. SendTo p \<notin> set out"
    using ev by (auto simp: is_printf_def)
  with r m handle_option_rejects [OF assms(2), of e s] show ?thesis
    by (simp add: Let_def)
qed

lemmas main_eval = main_def handle_option_def Let_def i2f_def parse_defs round_certs

theorem out_of_range_exits_witness:
  "(CHR ''r'', ''1000001'') \<in> set [(CHR ''r'', ''1000001'')] \<and>
   out_of_range (CHR ''r'', ''1000001'') \<and>
   Socket \<notin> set (main LittleEndian (TimeSpec 0 0) [(CHR ''r'', ''1000001'')] True [TimeSpec 0 0]) \<and>
   main LittleEndian (TimeSpec 0 0) [(CHR ''r'', ''1000001'')] True [TimeSpec 0 0] =
     [Printf ''UDP Generator, Version 1.0.1'', Printf ''Rate received: %f'',
      Printf ''Values greater than 1,000,000 packets per second are not supported'', Exit 0]"
proof -
  have h1: "(CHR ''r'', ''1000001'') \<in> set [(CHR ''r'', ''1000001'')]" by simp
  have h2: "out_of_range (CHR ''r'', ''1000001'')"
    by (simp add: out_of_range_def i2f_def parse_defs round_certs)
  from out_of_range_exits [OF h1 h2, of LittleEndian "TimeSpec 0 0" True "[TimeSpec 0 0]"]
  have a: "Socket \<notin> set (main LittleEndian (TimeSpec 0 0) [(CHR ''r'', ''1000001'')] True [TimeSpec 0 0])"
    by (simp add: Let_def)
  have b: "main LittleEndian (TimeSpec 0 0) [(CHR ''r'', ''1000001'')] True [TimeSpec 0 0] =
     [Printf ''UDP Generator, Version 1.0.1'', Printf ''Rate received: %f'',
      Printf ''Values greater than 1,000,000 packets per second are not supported'', Exit 0]"
    by (simp add: main_eval)
  from h1 h2 a b show ?thesis by (simp only: simp_thms)
qed

text \<open>
  The claim C7 as stated fails on the code: a rate of 0 is not positive, yet the program
  accepts it and goes on to create the socket.
\<close>

theorem nonpositive_rate_accepted:
  "atof ''0'' = Fin 0 \<and>
   main LittleEndian (TimeSpec 0 0) [(CHR ''r'', ''0'')] True [] =
     [Printf ''UDP Generator, Version 1.0.1'', Printf ''Rate received: %f'', Socket]"
  by (simp add: main_eval)

section \<open>The default configuration\<close>

lemma default_codes:
  "mapLatitude ''44.64423'' = Some 1065252864"
  "mapLongitude ''-93.24013'' = Some (- 1112398080)"
  by (simp_all add: parse_defs map_eval)

lemma host_order_examples:
  "htonl LittleEndian 1065252864 = 0x787E3F"
  "htonl LittleEndian (- 1112398080) = 0x27B2BD"
  "htons LittleEndian 4060 = 0xDC0F"
  "htonll LittleEndian 1700000000000000 = 0x401E18240A0600"
  "strcpy 13 ''Mission 01'' = [77, 105, 115, 115, 105, 111, 110, 32, 48, 49, 0, 0, 0]"
  "strcpy 13 ''Demo'' = [68, 101, 109, 111, 0, 0, 0, 0, 0, 0, 0, 0, 0]"
  by code_simp+

lemma default_globals_le:
  "default_globals LittleEndian (TimeSpec 1700000000 0) =
     Some \<lparr>missionId = [77, 105, 115, 115, 105, 111, 110, 32, 48, 49, 0, 0, 0],
           platform = [68, 101, 109, 111, 0, 0, 0, 0, 0, 0, 0, 0, 0],
           altitude = 0xDC0F, checksum = 0, latitude = 0x787E3F, longitude = 0x27B2BD,
           timestamp = 0x401E18240A0600\<rparr>"
  by (simp add: default_globals_def defaults_def globals_of_def default_codes
      mapAltitude_examples host_order_examples)

lemma default_packet_le:
  "makePacket LittleEndian
     \<lparr>missionId = [77, 105, 115, 115, 105, 111, 110, 32, 48, 49, 0, 0, 0],
      platform = [68, 101, 109, 111, 0, 0, 0, 0, 0, 0, 0, 0, 0],
      altitude = 0xDC0F, checksum = 0, latitude = 0x787E3F, longitude = 0x27B2BD,
      timestamp = 0x401E18240A0600\<rparr> (replicate 79 0) =
   (\<lparr>missionId = [77, 105, 115, 115, 105, 111, 110, 32, 48, 49, 0, 0, 0],
      platform = [68, 101, 109, 111, 0, 0, 0, 0, 0, 0, 0, 0, 0],
      altitude = 0xDC0F, checksum = 0x7852, latitude = 0x787E3F, longitude = 0x27B2BD,
      timestamp = 0x401E18240A0600\<rparr>,
    [6, 14, 43, 52, 2, 11, 1, 1, 14, 1, 3, 1, 1, 0, 0, 0, 61, 2, 8, 0, 6,
     10, 36, 24, 30, 64, 0, 3, 12, 77, 105, 115, 115, 105, 111, 110, 32,
     48, 49, 0, 0, 10, 12, 68, 101, 109, 111, 0, 0, 0, 0, 0, 0, 0, 0, 13,
     4, 63, 126, 120, 0, 14, 4, 189, 178, 39, 0, 15, 2, 15, 220, 65, 1, 2,
     1, 2, 82, 120, 0])"
  by code_simp

lemma default_globals_be:
  "default_globals BigEndian (TimeSpec 1700000000 0) =
     Some \<lparr>missionId = [77, 105, 115, 115, 105, 111, 110, 32, 48, 49, 0, 0, 0],
           platform = [68, 101, 109, 111, 0, 0, 0, 0, 0, 0, 0, 0, 0],
           altitude = 4060, checksum = 0, latitude = 1065252864, longitude = - 1112398080,
           timestamp = 1700000000000000\<rparr>"
  by (simp add: default_globals_def defaults_def globals_of_def default_codes
      mapAltitude_examples host_order_examples htonl_def htons_def htonll_def sysIsBigEndian_iff)

lemma default_packet_be:
  "makePacket BigEndian
     \<lparr>missionId = [77, 105, 115, 115, 105, 111, 110, 32, 48, 49, 0, 0, 0],
      platform = [68, 101, 109, 111, 0, 0, 0, 0, 0, 0, 0, 0, 0],
      altitude = 4060, checksum = 0, latitude = 1065252864, longitude = - 1112398080,
      timestamp = 1700000000000000\<rparr> (replicate 79 0) =
   (\<lparr>missionId = [77, 105, 115, 115, 105, 111, 110, 32, 48, 49, 0, 0, 0],
      platform = [68, 101, 109, 111, 0, 0, 0, 0, 0, 0, 0, 0, 0],
      altitude = 4060, checksum = 0x7852, latitude = 1065252864, longitude = - 1112398080,
      timestamp = 1700000000000000\<rparr>,
    [6, 14, 43, 52, 2, 11, 1, 1, 14, 1, 3, 1, 1, 0, 0, 0, 61, 2, 8, 0, 6,
     10, 36, 24, 30, 64, 0, 3, 12, 77, 105, 115, 115, 105, 111, 110, 32,
     48, 49, 0, 0, 10, 12, 68, 101, 109, 111, 0, 0, 0, 0, 0, 0, 0, 0, 13,
     4, 63, 126, 120, 0, 14, 4, 189, 178, 39, 0, 15, 2, 15, 220, 65, 1, 2,
     1, 2, 0, 0, 0])"
  by code_simp

lemma main_default:
  "main e clk [] True [clk'] =
     [Printf ''UDP Generator, Version 1.0.1'', Socket,
      SendTo (map_option (\<lambda>g. packet_of (snd (makePacket e g (replicate 79 0))))
                (default_globals e clk'))]" if "clk = clk'"
  using that
  by (simp add: main_def default_globals_def Let_def case_prod_unfold split: option.split)

section \<open>Properties of the packet layout\<close>

lemma memcpy_filled:
  "off = length pre \<Longrightarrow> n \<le> length src \<Longrightarrow> off + n \<le> length buff \<Longrightarrow>
   memcpy (filled pre buff) off src n = filled (pre @ take n src) buff"
  by (simp add: memcpy_def filled_def add.commute)

lemma length_object_bytes [simp]: "length (object_bytes e n w) = n"
  by (simp add: object_bytes_def be_bytes_def le_bytes_def split: endianness.split)

lemma const_lengths:
  "length uasLdsKey = 16" "length timestampTagLen = 2" "length missionTagLen = 2"
  "length platformTagLen = 2" "length latitudeTagLen = 2" "length longitudeTagLen = 2"
  "length altitudeTagLen = 2" "length versionTagLen = 2" "length checksumTagLen = 2"
  by (simp_all add: uasLdsKey_def timestampTagLen_def missionTagLen_def
      platformTagLen_def latitudeTagLen_def longitudeTagLen_def altitudeTagLen_def
      versionTagLen_def checksumTagLen_def)

lemma length_fields_image:
  "12 \<le> length (missionId g) \<Longrightarrow> 12 \<le> length (platform g) \<Longrightarrow> length (fields_image e g) = 76"
  by (simp add: fields_image_def const_lengths)

lemma makePacket_image:
  assumes "78 \<le> length buff" "12 \<le> length (missionId g)" "12 \<le> length (platform g)"
  shows "makePacket e g buff =
     (g\<lparr>checksum := ucast (makeChecksum (fields_image e g @ drop 76 buff) 76)\<rparr>,
      fields_image e g @
      take 2 (object_bytes e 4 (ucast (makeChecksum (fields_image e g @ drop 76 buff) 76) :: u32)) @
      drop 78 buff)"
proof -
  have "makePacket e g (filled [] buff) =
     (g\<lparr>checksum := ucast (makeChecksum (filled (fields_image e g) buff) 76)\<rparr>,
      filled (fields_image e g @
        take 2 (object_bytes e 4 (ucast (makeChecksum (filled (fields_image e g) buff) 76) :: u32)))
        buff)"
    unfolding makePacket_def Let_def fields_image_def using assms
    by (simp add: memcpy_filled const_lengths)
  then show ?thesis using assms
    by (simp add: filled_def length_fields_image)
qed

lemma packet_image:
  assumes "78 \<le> length buff" "12 \<le> length (missionId g)" "12 \<le> length (platform g)"
  shows "packet_of (snd (makePacket e g buff)) =
     fields_image e g @ take 2 (object_bytes e 4 (checksum (fst (makePacket e g buff))))"
  using assms by (simp add: makePacket_image packet_of_def PACKET_LENGTH_def length_fields_image)

lemma image_slices:
  assumes p: "p = fields_image e g @ cs"
    and "12 \<le> length (missionId g)" "12 \<le> length (platform g)" "length cs = 2"
  shows "length p = 78"
    "slice p 0 16 = uasLdsKey" "slice p 16 1 = [msgLength]"
    "slice p 17 2 = timestampTagLen" "slice p 19 8 = object_bytes e 8 (timestamp g)"
    "slice p 27 2 = missionTagLen" "slice p 29 12 = take 12 (missionId g)"
    "slice p 41 2 = platformTagLen" "slice p 43 12 = take 12 (platform g)"
    "slice p 55 2 = latitudeTagLen" "slice p 57 4 = object_bytes e 4 (latitude g)"
    "slice p 61 2 = longitudeTagLen" "slice p 63 4 = object_bytes e 4 (longitude g)"
    "slice p 67 2 = altitudeTagLen" "slice p 69 2 = object_bytes e 2 (altitude g)"
    "slice p 71 2 = versionTagLen" "slice p 73 1 = [ldsVersion]"
    "slice p 74 2 = checksumTagLen" "slice p 76 2 = cs"
  using assms(2-) unfolding p fields_image_def slice_def
  by (simp_all add: const_lengths)

text \<open>
  C1: for every configuration the packet that \<open>makePacket\<close> leaves in the buffer is exactly
  78 bytes long, and every item of the layout table sits at its fixed offset: the
  universal key at 0..15, the set length 0x3D at 16, each tag/length pair and each value
  at the offsets of the table, the version item 41 01 02 at 71..73 and the checksum item
  at 74..77.  The buffer holds at least the 78 bytes of the packet and the two text
  fields hold at least the 12 bytes that are copied (the source declares 79 and 13).
\<close>

theorem makePacket_layout:
  assumes "78 \<le> length buff" "12 \<le> length (missionId g)" "12 \<le> length (platform g)"
  shows "let p = packet_of (snd (makePacket e g buff)) in
    length p = 78 \<and>
    slice p 0 16 = [0x06, 0x0E, 0x2B, 0x34, 0x02, 0x0B, 0x01, 0x01,
                    0x0E, 0x01, 0x03, 0x01, 0x01, 0x00, 0x00, 0x00] \<and>
    slice p 16 1 = [0x3D] \<and>
    slice p 17 2 = [0x02, 0x08] \<and>
    slice p 19 8 = object_bytes e 8 (timestamp g) \<and>
    slice p 27 2 = [0x03, 0x0C] \<and>
    slice p 29 12 = take 12 (missionId g) \<and>
    slice p 41 2 = [0x0A, 0x0C] \<and>
    slice p 43 12 = take 12 (platform g) \<and>
    slice p 55 2 = [0x0D, 0x04] \<and>
    slice p 57 4 = object_bytes e 4 (latitude g) \<and>
    slice p 61 2 = [0x0E, 0x04] \<and>
    slice p 63 4 = object_bytes e 4 (longitude g) \<and>
    slice p 67 2 = [0x0F, 0x02] \<and>
    slice p 69 2 = object_bytes e 2 (altitude g) \<and>
    slice p 71 2 = [0x41, 0x01] \<and>
    slice p 73 1 = [0x02] \<and>
    slice p 74 2 = [0x01, 0x02] \<and>
    slice p 76 2 = take 2 (object_bytes e 4 (checksum (fst (makePacket e g buff))))"
proof -
  have l: "length (take 2 (object_bytes e 4 (checksum (fst (makePacket e g buff))))) = 2"
    by simp
  note s = image_slices [OF packet_image [OF assms, of e] assms(2,3) l,
      unfolded uasLdsKey_def msgLength_def timestampTagLen_def missionTagLen_def
        platformTagLen_def latitudeTagLen_def longitudeTagLen_def altitudeTagLen_def
        versionTagLen_def ldsVersion_def checksumTagLen_def]
  show ?thesis
    unfolding Let_def by (simp only: s simp_thms)
qed

text \<open>
  The layout at the default configuration: mission id "Mission 01", platform "Demo",
  latitude 44.64423, longitude -93.24013, altitude 333.
\<close>

theorem makePacket_layout_witness:
  "default_globals LittleEndian (TimeSpec 1700000000 0) \<noteq> None \<and>
   78 \<le> length (replicate 79 (0 :: u8)) \<and>
   12 \<le> length (missionId (the (default_globals LittleEndian (TimeSpec 1700000000 0)))) \<and>
   12 \<le> length (platform (the (default_globals LittleEndian (TimeSpec 1700000000 0)))) \<and>
   (let p = packet_of (snd (makePacket LittleEndian
              (the (default_globals LittleEndian (TimeSpec 1700000000 0))) (replicate 79 0)))
    in length p = 78 \<and>
       slice p 0 16 = [0x06, 0x0E, 0x2B, 0x34, 0x02, 0x0B, 0x01, 0x01,
                       0x0E, 0x01, 0x03, 0x01, 0x01, 0x00, 0x00, 0x00] \<and>
       slice p 16 1 = [0x3D] \<and> slice p 17 2 = [0x02, 0x08] \<and>
       slice p 71 2 = [0x41, 0x01] \<and> slice p 73 1 = [0x02])"
proof -
  let ?g = "the (default_globals LittleEndian (TimeSpec 1700000000 0))"
  have h1: "78 \<le> length (replicate 79 (0 :: u8))" by simp
  have h2: "12 \<le> length (missionId ?g)" by (simp add: default_globals_le)
  have h3: "12 \<le> length (platform ?g)" by (simp add: default_globals_le)
  have h0: "default_globals LittleEndian (TimeSpec 1700000000 0) \<noteq> None"
    by (simp add: default_globals_le)
  from makePacket_layout [OF h1 h2 h3, of LittleEndian] h0 h1 h2 h3 show ?thesis
    by (simp only: Let_def simp_thms)
qed

text \<open>
  C2: \<open>makeChecksum\<close> returns the sum modulo 65536 of the bytes, the byte at index \<open>i\<close>
  shifted left by 8 bits when \<open>i + 1\<close> is odd and by 0 bits otherwise; and the checksum
  that \<open>makePacket\<close> stores is this sum over bytes 0..75 of the packet, which does not
  change whatever bytes 76 and 77 hold.
\<close>

theorem makeChecksum_spec:
  assumes "unat len \<le> length buff"
    and "78 \<le> length pbuff" "12 \<le> length (missionId g)" "12 \<le> length (platform g)"
  shows "unat (makeChecksum buff len) =
           (\<Sum>i < unat len. push_bit (if odd (i + 1) then 8 else 0) (unat (buff ! i))) mod 2 ^ 16 \<and>
         (let (g', b) = makePacket e g pbuff in
            checksum g' = ucast (makeChecksum b 76) \<and>
            (\<forall>x y. makeChecksum (b[76 := x, 77 := y]) 76 = makeChecksum b 76))"
proof -
  have a: "unat (makeChecksum buff len) =
      (\<Sum>i < unat len. push_bit (if odd (i + 1) then 8 else 0) (unat (buff ! i))) mod 2 ^ 16"
    using makeChecksum_sum [of buff len] by (simp add: weight_def)
  obtain g' b where gb: "makePacket e g pbuff = (g', b)" by (cases "makePacket e g pbuff")
  have l: "length (fields_image e g) = 76" using assms by (simp add: length_fields_image)
  have b: "b = fields_image e g @ take 2 (object_bytes e 4 (checksum g')) @ drop 78 pbuff"
    and g': "checksum g' = ucast (makeChecksum (fields_image e g @ drop 76 pbuff) 76)"
    using gb assms by (auto simp: makePacket_image)
  have "makeChecksum b 76 = makeChecksum (fields_image e g @ drop 76 pbuff) 76"
    by (rule makeChecksum_cong) (simp add: b l)
  with g' have c: "checksum g' = ucast (makeChecksum b 76)" by simp
  have d: "makeChecksum (b[76 := x, 77 := y]) 76 = makeChecksum b 76" for x y
    by (rule makeChecksum_cong) simp
  from a c d gb show ?thesis by simp
qed

theorem makeChecksum_spec_witness:
  "unat (5 :: u16) \<le> length [1, 2, 3, 4, 5 :: u8] \<and>
   78 \<le> length (replicate 79 (0 :: u8)) \<and>
   unat (makeChecksum [1, 2, 3, 4, 5] 5) =
     (\<Sum>i < unat (5 :: u16). push_bit (if odd (i + 1) then 8 else 0)
        (unat ([1, 2, 3, 4, 5 :: u8] ! i))) mod 2 ^ 16 \<and>
   makeChecksum [1, 2, 3, 4, 5] 5 = 0x0906"
proof -
  have h1: "unat (5 :: u16) \<le> length [1, 2, 3, 4, 5 :: u8]" by simp
  have h2: "78 \<le> length (replicate 79 (0 :: u8))" by simp
  have h3: "12 \<le> length (missionId \<lparr>missionId = replicate 13 0, platform = replicate 13 0,
      altitude = 0, checksum = 0, latitude = 0, longitude = 0, timestamp = 0\<rparr>)" by simp
  have h4: "12 \<le> length (platform \<lparr>missionId = replicate 13 0, platform = replicate 13 0,
      altitude = 0, checksum = 0, latitude = 0, longitude = 0, timestamp = 0\<rparr>)" by simp
  note t = makeChecksum_spec [OF h1 h2 h3 h4, of LittleEndian, THEN conjunct1]
  have v: "makeChecksum [1, 2, 3, 4, 5] 5 = 0x0906" by code_simp
  from h1 h2 t v show ?thesis by (simp only: simp_thms)
qed

text \<open>
  C8: \<open>makeChecksum\<close> is a function of the \<open>len\<close> bytes it reads, and replacing any one
  of these bytes by a different value changes the 16-bit result.
\<close>

theorem makeChecksum_sensitive:
  assumes "unat len \<le> length buff"
  shows "(\<forall>buff'. take (unat len) buff' = take (unat len) buff \<longrightarrow>
            makeChecksum buff' len = makeChecksum buff len) \<and>
         (\<forall>i v. i < unat len \<and> v \<noteq> buff ! i \<longrightarrow>
            makeChecksum (buff[i := v]) len \<noteq> makeChecksum buff len)"
  using assms by (auto intro: makeChecksum_cong dest: makeChecksum_update_neq)

theorem makeChecksum_sensitive_witness:
  "unat (5 :: u16) \<le> length [1, 2, 3, 4, 5 :: u8] \<and>
   makeChecksum [1, 2, 3, 4, 5, 9] 5 = makeChecksum [1, 2, 3, 4, 5] 5 \<and>
   makeChecksum [1, 2, 7, 4, 5] 5 \<noteq> makeChecksum [1, 2, 3, 4, 5] 5"
proof -
  have h: "unat (5 :: u16) \<le> length [1, 2, 3, 4, 5 :: u8]" by simp
  note t = makeChecksum_sensitive [OF h]
  have "take (unat (5 :: u16)) [1, 2, 3, 4, 5, 9 :: u8] = take (unat (5 :: u16)) [1, 2, 3, 4, 5]"
    by simp
  with t have "makeChecksum [1, 2, 3, 4, 5, 9] 5 = makeChecksum [1, 2, 3, 4, 5] 5" by blast
  moreover have "2 < unat (5 :: u16) \<and> (7 :: u8) \<noteq> [1, 2, 3, 4, 5] ! 2" by simp
  with t have "makeChecksum ([1, 2, 3, 4, 5][2 := 7]) 5 \<noteq> makeChecksum [1, 2, 3, 4, 5] 5"
    by blast
  then have "makeChecksum [1, 2, 7, 4, 5] 5 \<noteq> makeChecksum [1, 2, 3, 4, 5] 5" by simp
  ultimately show ?thesis using h by (simp only: simp_thms)
qed

text \<open>
  For every configuration the checksum field holds the first two bytes of the 32-bit
  host-order variable: the 16-bit sum low byte first on a little-endian host, zero on a
  big-endian host.
\<close>

lemma checksum_object_bytes:
  fixes cs :: u16
  shows "take 2 (object_bytes LittleEndian 4 (ucast cs :: u32)) = le_bytes 2 cs"
    and "take 2 (object_bytes BigEndian 4 (ucast cs :: u32)) = [0, 0]"
proof -
  have a: "(ucast (ucast cs :: u32) :: u8) = ucast cs"
    by (rule bit_word_eqI) (auto simp: bit_simps)
  have b: "(ucast (drop_bit 8 (ucast cs :: u32)) :: u8) = ucast (drop_bit 8 cs)"
    by (rule bit_word_eqI) (auto simp: bit_simps)
  have c: "(ucast (drop_bit 16 (ucast cs :: u32)) :: u8) = 0"
    "(ucast (drop_bit 24 (ucast cs :: u32)) :: u8) = 0"
    by (rule bit_word_eqI, auto simp: bit_simps dest: bit_imp_le_length)+
  show "take 2 (object_bytes LittleEndian 4 (ucast cs :: u32)) = le_bytes 2 cs"
    by (simp add: object_bytes_def le_bytes_def upt_conv_Cons a b)
  show "take 2 (object_bytes BigEndian 4 (ucast cs :: u32)) = [0, 0]"
    by (simp add: object_bytes_def be_bytes_def le_bytes_def upt_conv_Cons c)
qed

lemma checksum_field_host_order:
  assumes "78 \<le> length buff" "12 \<le> length (missionId g)" "12 \<le> length (platform g)"
  shows "slice (packet_of (snd (makePacket e g buff))) 76 2 =
     (case e of
        LittleEndian \<Rightarrow> le_bytes 2 (makeChecksum (snd (makePacket e g buff)) 76)
      | BigEndian \<Rightarrow> [0, 0])"
proof -
  have l: "length (fields_image e g) = 76" using assms by (simp add: length_fields_image)
  have b: "snd (makePacket e g buff) = fields_image e g @
      take 2 (object_bytes e 4 (ucast (makeChecksum (fields_image e g @ drop 76 buff) 76) :: u32)) @
      drop 78 buff"
    using assms by (simp add: makePacket_image)
  have m: "makeChecksum (snd (makePacket e g buff)) 76 =
      makeChecksum (fields_image e g @ drop 76 buff) 76"
    by (rule makeChecksum_cong) (simp add: b l)
  have p: "packet_of (snd (makePacket e g buff)) = fields_image e g @
      take 2 (object_bytes e 4 (ucast (makeChecksum (snd (makePacket e g buff)) 76) :: u32))"
    unfolding m using assms by (simp add: makePacket_image packet_of_def PACKET_LENGTH_def l)
  have "slice (packet_of (snd (makePacket e g buff))) 76 2 =
      take 2 (object_bytes e 4 (ucast (makeChecksum (snd (makePacket e g buff)) 76) :: u32))"
    by (subst p) (simp add: slice_def l)
  then show ?thesis
    by (cases e) (simp_all add: checksum_object_bytes)
qed

text \<open>
  C3 fails on the code.  On a little-endian host with the default configuration the
  checksum of the packet is 0x7852 and bytes 76..77 hold 52 78, the low byte first; on a
  big-endian host they hold 00 00, the upper half of the 32-bit variable.  In network
  order they would hold 78 52.
\<close>

theorem checksum_not_network_order:
  "main LittleEndian (TimeSpec 1700000000 0) [] True [TimeSpec 1700000000 0] =
     [Printf ''UDP Generator, Version 1.0.1'', Socket,
      SendTo (Some
        [6, 14, 43, 52, 2, 11, 1, 1, 14, 1, 3, 1, 1, 0, 0, 0, 61, 2, 8, 0, 6,
         10, 36, 24, 30, 64, 0, 3, 12, 77, 105, 115, 115, 105, 111, 110, 32,
         48, 49, 0, 0, 10, 12, 68, 101, 109, 111, 0, 0, 0, 0, 0, 0, 0, 0, 13,
         4, 63, 126, 120, 0, 14, 4, 189, 178, 39, 0, 15, 2, 15, 220, 65, 1, 2,
         1, 2, 0x52, 0x78])] \<and>
   main BigEndian (TimeSpec 1700000000 0) [] True [TimeSpec 1700000000 0] =
     [Printf ''UDP Generator, Version 1.0.1'', Socket,
      SendTo (Some
        [6, 14, 43, 52, 2, 11, 1, 1, 14, 1, 3, 1, 1, 0, 0, 0, 61, 2, 8, 0, 6,
         10, 36, 24, 30, 64, 0, 3, 12, 77, 105, 115, 115, 105, 111, 110, 32,
         48, 49, 0, 0, 10, 12, 68, 101, 109, 111, 0, 0, 0, 0, 0, 0, 0, 0, 13,
         4, 63, 126, 120, 0, 14, 4, 189, 178, 39, 0, 15, 2, 15, 220, 65, 1, 2,
         1, 2, 0, 0])] \<and>
   makeChecksum
        [6, 14, 43, 52, 2, 11, 1, 1, 14, 1, 3, 1, 1, 0, 0, 0, 61, 2, 8, 0, 6,
         10, 36, 24, 30, 64, 0, 3, 12, 77, 105, 115, 115, 105, 111, 110, 32,
         48, 49, 0, 0, 10, 12, 68, 101, 109, 111, 0, 0, 0, 0, 0, 0, 0, 0, 13,
         4, 63, 126, 120, 0, 14, 4, 189, 178, 39, 0, 15, 2, 15, 220, 65, 1, 2,
         1, 2] 76 = 0x7852 \<and>
   be_bytes 2 (0x7852 :: u16) = [0x78, 0x52]"
proof -
  have a: "makeChecksum
        [6, 14, 43, 52, 2, 11, 1, 1, 14, 1, 3, 1, 1, 0, 0, 0, 61, 2, 8, 0, 6,
         10, 36, 24, 30, 64, 0, 3, 12, 77, 105, 115, 115, 105, 111, 110, 32,
         48, 49, 0, 0, 10, 12, 68, 101, 109, 111, 0, 0, 0, 0, 0, 0, 0, 0, 13,
         4, 63, 126, 120, 0, 14, 4, 189, 178, 39, 0, 15, 2, 15, 220, 65, 1, 2,
         1, 2] 76 = 0x7852"
    by code_simp
  have b: "be_bytes 2 (0x7852 :: u16) = [0x78, 0x52]" by code_simp
  show ?thesis
    by (simp add: main_default default_globals_le default_globals_be default_packet_le
        default_packet_be packet_of_def PACKET_LENGTH_def a b)
qed

end
